theory Spec2Isabelle
  imports
    Main
    "HOL-Library.Char_ord"
    "HOL-Library.List_Lexorder"
    "HOL-Library.Product_Lexorder"
    "HOL-Library.Multiset"
begin

section \<open>The persisted tables\<close>

text \<open>
  The three tables of \<open>initDatabase\<close>, column by column, and SQLite's own
  \<open>sqlite_sequence\<close> row for the AUTOINCREMENT key of \<open>snapshots\<close>
  (\<open>None\<close> while that row does not exist). Row ids and counters are 64-bit integers in
  SQLite; they are unbounded here, the upper end being out of reach of a counter that grows
  by one per message or per snapshot. Timestamps written by \<open>CURRENT_TIMESTAMP\<close> have a
  resolution of one second and are modelled as seconds since the epoch.
\<close>

record activity_row =
  user_id :: string
  username :: string
  roles :: string
  channel_id :: string
  channel_name :: string
  message_count :: int
  last_message :: nat

record snapshot_row =
  snap_id :: nat
  snap_name :: string
  created_at :: nat

record snapshot_data_row =
  snapshot_id :: nat
  sd_user_id :: string
  sd_username :: string
  sd_roles :: string
  sd_channel_id :: string
  sd_channel_name :: string
  sd_message_count :: int

record database =
  channel_activity :: "activity_row list"
  snapshots :: "snapshot_row list"
  snapshot_data :: "snapshot_data_row list"
  sqlite_sequence :: "nat option"

section \<open>The connection: transactions and failing statements\<close>

text \<open>
  A connection holds the tables as the statements see them, the tables saved by
  \<open>BEGIN TRANSACTION\<close> (\<open>None\<close> in autocommit mode) and a schedule of storage faults:
  every statement other than \<open>ROLLBACK\<close> consumes the head of \<open>faults\<close> and raises
  when it is \<open>True\<close>; an empty schedule means that no further statement faults.
  \<open>ROLLBACK\<close> restores the saved tables whenever a transaction is open and raises only
  when none is.
\<close>

record conn =
  db :: database
  txn :: "database option"
  faults :: "bool list"

datatype sql_error = IoError | ConstraintError | TxnError

datatype 'a outcome = Ok 'a | Throw sql_error

definition next_fault :: "conn \<Rightarrow> bool \<times> conn" where
  "next_fault c = (case faults c of [] \<Rightarrow> (False, c) | f # fs \<Rightarrow> (f, c\<lparr>faults := fs\<rparr>))"

definition begin_transaction :: "conn \<Rightarrow> unit outcome \<times> conn" where
  "begin_transaction c =
     (let (f, c1) = next_fault c in
      if f then (Throw IoError, c1)
      else (case txn c1 of
              Some s \<Rightarrow> (Throw TxnError, c1)
            | None \<Rightarrow> (Ok (), c1\<lparr>txn := Some (db c1)\<rparr>)))"

definition commit :: "conn \<Rightarrow> unit outcome \<times> conn" where
  "commit c =
     (let (f, c1) = next_fault c in
      if f then (Throw IoError, c1)
      else (case txn c1 of
              None \<Rightarrow> (Throw TxnError, c1)
            | Some s \<Rightarrow> (Ok (), c1\<lparr>txn := None\<rparr>)))"

definition rollback :: "conn \<Rightarrow> unit outcome \<times> conn" where
  "rollback c =
     (case txn c of
        None \<Rightarrow> (Throw TxnError, c)
      | Some s \<Rightarrow> (Ok (), c\<lparr>db := s, txn := None\<rparr>))"

section \<open>Statements on \<open>snapshots\<close> and \<open>snapshot_data\<close>\<close>

text \<open>\<open>SELECT MAX(id) FROM snapshots\<close>: NULL on an empty table.\<close>

definition max_snapshot_id :: "database \<Rightarrow> nat option" where
  "max_snapshot_id d =
     (case snapshots d of [] \<Rightarrow> None | s # ss \<Rightarrow> Some (Max (set (map snap_id (s # ss)))))"

text \<open>
  The row id an AUTOINCREMENT insert takes: one more than the larger of the stored
  sequence value and the largest id in the table.
\<close>

definition new_rowid :: "database \<Rightarrow> nat" where
  "new_rowid d =
     max (case sqlite_sequence d of None \<Rightarrow> 0 | Some q \<Rightarrow> q)
         (case max_snapshot_id d of None \<Rightarrow> 0 | Some m \<Rightarrow> m) + 1"

text \<open>
  \<open>INSERT INTO snapshots (name, created_at) VALUES (?, CURRENT_TIMESTAMP)\<close>; the
  UNIQUE(name) constraint rejects a name already present. The result is \<open>lastID\<close>.
\<close>

definition insert_snapshot :: "string \<Rightarrow> nat \<Rightarrow> conn \<Rightarrow> nat outcome \<times> conn" where
  "insert_snapshot nm ts c =
     (let (f, c1) = next_fault c in
      if f then (Throw IoError, c1)
      else if nm \<in> set (map snap_name (snapshots (db c1))) then (Throw ConstraintError, c1)
      else
        (let i = new_rowid (db c1) in
         (Ok i, c1\<lparr>db := (db c1)\<lparr>
             snapshots := snapshots (db c1) @ [\<lparr>snap_id = i, snap_name = nm, created_at = ts\<rparr>],
             sqlite_sequence := Some i\<rparr>\<rparr>)))"

text \<open>
  \<open>SELECT ... FROM channel_activity ORDER BY user_id, message_count DESC\<close>. Text
  compares bytewise; rows with equal keys keep their table order.
\<close>

definition select_channel_activity :: "conn \<Rightarrow> activity_row list outcome \<times> conn" where
  "select_channel_activity c =
     (let (f, c1) = next_fault c in
      if f then (Throw IoError, c1)
      else (Ok (sort_key (\<lambda>r. (user_id r, - message_count r)) (channel_activity (db c1))), c1))"

definition sd_key :: "snapshot_data_row \<Rightarrow> nat \<times> string \<times> string" where
  "sd_key r = (snapshot_id r, sd_user_id r, sd_channel_id r)"

text \<open>
  One multi-row \<open>INSERT INTO snapshot_data ... VALUES (...), (...)\<close>. The primary key
  (snapshot_id, user_id, channel_id) rejects the whole statement when a key repeats.
\<close>

definition insert_snapshot_data :: "snapshot_data_row list \<Rightarrow> conn \<Rightarrow> unit outcome \<times> conn" where
  "insert_snapshot_data rows c =
     (let (f, c1) = next_fault c in
      if f then (Throw IoError, c1)
      else if \<not> distinct (map sd_key (snapshot_data (db c1) @ rows)) then (Throw ConstraintError, c1)
      else (Ok (), c1\<lparr>db := (db c1)\<lparr>snapshot_data := snapshot_data (db c1) @ rows\<rparr>\<rparr>))"

definition frozen_row :: "nat \<Rightarrow> activity_row \<Rightarrow> snapshot_data_row" where
  "frozen_row snapshotId item =
     \<lparr>snapshot_id = snapshotId, sd_user_id = user_id item, sd_username = username item,
      sd_roles = roles item, sd_channel_id = channel_id item,
      sd_channel_name = channel_name item, sd_message_count = message_count item\<rparr>"

definition chunkSize :: nat where
  "chunkSize = 1000"

text \<open>The loop \<open>for (let i = 0; i < data.length; i += chunkSize)\<close> of \<open>createSnapshot\<close>.\<close>

function insert_chunks :: "nat \<Rightarrow> activity_row list \<Rightarrow> nat \<Rightarrow> conn \<Rightarrow> unit outcome \<times> conn" where
  "insert_chunks snapshotId data i c =
     (if i < length data then
        (case insert_snapshot_data
                (map (frozen_row snapshotId) (take chunkSize (drop i data))) c of
           (Throw e, c1) \<Rightarrow> (Throw e, c1)
         | (Ok u, c1) \<Rightarrow> insert_chunks snapshotId data (i + chunkSize) c1)
      else (Ok (), c))"
  by pat_completeness auto
termination
  by (relation "measure (\<lambda>(snapshotId, data, i, c). length data - i)")
     (auto simp: chunkSize_def)

declare insert_chunks.simps [simp del]

section \<open>\<open>createSnapshot\<close>\<close>

text \<open>
  The instant read by \<open>new Date()\<close>, as the UTC fields that \<open>toISOString\<close> prints.
\<close>

record date =
  year :: int
  month :: nat
  day :: nat
  hours :: nat
  minutes :: nat
  seconds :: nat
  milliseconds :: nat

definition digit_char :: "nat \<Rightarrow> char" where
  "digit_char n = char_of (48 + n mod 10)"

text \<open>The last \<open>k\<close> decimal digits of \<open>n\<close>, zero-padded on the left.\<close>

fun pad :: "nat \<Rightarrow> nat \<Rightarrow> string" where
  "pad 0 n = []"
| "pad (Suc k) n = pad k (n div 10) @ [digit_char n]"

text \<open>
  \<open>Date.prototype.toISOString\<close>: \<open>YYYY-MM-DDTHH:mm:ss.sssZ\<close>, with a sign and six
  digits for a year outside 0..9999.
\<close>

definition toISOString :: "date \<Rightarrow> string" where
  "toISOString d =
     (if 0 \<le> year d \<and> year d \<le> 9999 then pad 4 (nat (year d))
      else (if year d < 0 then ''-'' else ''+'') @ pad 6 (nat \<bar>year d\<bar>))
     @ ''-'' @ pad 2 (month d) @ ''-'' @ pad 2 (day d)
     @ ''T'' @ pad 2 (hours d) @ '':'' @ pad 2 (minutes d) @ '':'' @ pad 2 (seconds d)
     @ ''.'' @ pad 3 (milliseconds d) @ ''Z''"

text \<open>\<open>.replace(/[:.]/g, '-')\<close>\<close>

definition replace_colon_dot :: "string \<Rightarrow> string" where
  "replace_colon_dot s = map (\<lambda>ch. if ch = CHR '':'' \<or> ch = CHR ''.'' then CHR ''-'' else ch) s"

definition snapshot_name :: "date \<Rightarrow> string" where
  "snapshot_name now = replace_colon_dot (toISOString now)"

record snapshot_result =
  res_id :: nat
  res_name :: string
  res_count :: nat

text \<open>The inner \<open>try\<close> block of \<open>createSnapshot\<close>; \<open>Ok None\<close> is its \<open>return null\<close>.\<close>

definition createSnapshot_try ::
  "string \<Rightarrow> nat \<Rightarrow> conn \<Rightarrow> snapshot_result option outcome \<times> conn" where
  "createSnapshot_try nm ts c =
     (case insert_snapshot nm ts c of
        (Throw e, c1) \<Rightarrow> (Throw e, c1)
      | (Ok snapshotId, c1) \<Rightarrow>
          (case select_channel_activity c1 of
             (Throw e, c2) \<Rightarrow> (Throw e, c2)
           | (Ok data, c2) \<Rightarrow>
               if length data = 0 then
                 (case rollback c2 of
                    (Throw e, c3) \<Rightarrow> (Throw e, c3)
                  | (Ok u, c3) \<Rightarrow> (Ok None, c3))
               else
                 (case insert_chunks snapshotId data 0 c2 of
                    (Throw e, c3) \<Rightarrow> (Throw e, c3)
                  | (Ok u, c3) \<Rightarrow>
                      (case commit c3 of
                         (Throw e, c4) \<Rightarrow> (Throw e, c4)
                       | (Ok u', c4) \<Rightarrow>
                           (Ok (Some \<lparr>res_id = snapshotId, res_name = nm,
                                      res_count = length data\<rparr>), c4)))))"

text \<open>
  \<open>createSnapshot(db)\<close>. \<open>now\<close> is the instant read by \<open>new Date()\<close> and \<open>ts\<close> the
  value of \<open>CURRENT_TIMESTAMP\<close> at the insert. A raise in the \<open>try\<close> block runs the
  \<open>catch\<close>: \<open>ROLLBACK\<close>, then \<open>return null\<close>; a raise of \<open>BEGIN\<close> or of that
  \<open>ROLLBACK\<close> reaches the outer \<open>catch\<close>, which returns null as well.
\<close>

definition createSnapshot :: "date \<Rightarrow> nat \<Rightarrow> conn \<Rightarrow> snapshot_result option \<times> conn" where
  "createSnapshot now ts c =
     (let name = snapshot_name now in
      case begin_transaction c of
        (Throw e, c1) \<Rightarrow> (None, c1)
      | (Ok u, c1) \<Rightarrow>
          (case createSnapshot_try name ts c1 of
             (Ok r, c2) \<Rightarrow> (r, c2)
           | (Throw e, c2) \<Rightarrow>
               (case rollback c2 of
                  (Throw e', c3) \<Rightarrow> (None, c3)
                | (Ok u', c3) \<Rightarrow> (None, c3))))"


section \<open>\<open>processMessage\<close>\<close>

text \<open>
  What \<open>processMessage\<close> reads of a gateway message. A member is the list of the names
  of the roles in \<open>member.roles.cache\<close>; \<open>fetched_member\<close> is what
  \<open>message.guild.members.fetch(...).catch(() => null)\<close> yields when
  \<open>message.member\<close> is null (\<open>None\<close> when the fetch fails).
\<close>

record message =
  author_bot :: bool
  author_id :: string
  author_tag :: string
  msg_member :: "string list option"
  fetched_member :: "string list option"
  msg_channel_id :: string
  msg_channel_name :: string

definition TARGET_ROLES :: "string list" where
  "TARGET_ROLES =
     [''Super Prover'', ''Proofer'', ''PROVED UR LUV'', ''Prover'', ''PROOF OF ART'',
      ''PROOF OF DEV'', ''PROOF OF MUSIC'', ''PROOF OF WRITING'', ''PROOF OF VIDEO'',
      ''Proof Verified'']"

definition hasTargetRole :: "string list option \<Rightarrow> bool" where
  "hasTargetRole member =
     (case member of
        None \<Rightarrow> False
      | Some rs \<Rightarrow> list_ex (\<lambda>role. role \<in> set TARGET_ROLES) rs)"

fun join :: "string \<Rightarrow> string list \<Rightarrow> string" where
  "join sep [] = []"
| "join sep [x] = x"
| "join sep (x # y # ys) = x @ sep @ join sep (y # ys)"

definition getUserRoles :: "string list option \<Rightarrow> string" where
  "getUserRoles member =
     (case member of
        None \<Rightarrow> []
      | Some rs \<Rightarrow> join '', '' (filter (\<lambda>role. role \<noteq> ''@everyone'') rs))"

text \<open>
  The rows of \<open>channel_activity\<close> after
  \<open>INSERT ... VALUES (?, ?, ?, ?, ?, 1, CURRENT_TIMESTAMP) ON CONFLICT(user_id, channel_id)
  DO UPDATE SET username = ?, roles = ?, channel_name = ?, message_count = message_count + 1,
  last_message = CURRENT_TIMESTAMP\<close>.
\<close>

fun upsert_rows :: "activity_row \<Rightarrow> activity_row list \<Rightarrow> activity_row list" where
  "upsert_rows new [] = [new]"
| "upsert_rows new (r # rs) =
     (if user_id r = user_id new \<and> channel_id r = channel_id new then
        r\<lparr>username := username new, roles := roles new, channel_name := channel_name new,
          message_count := message_count r + 1, last_message := last_message new\<rparr> # rs
      else r # upsert_rows new rs)"

definition upsert_activity ::
  "string \<Rightarrow> string \<Rightarrow> string \<Rightarrow> string \<Rightarrow> string \<Rightarrow> nat \<Rightarrow> conn \<Rightarrow> unit outcome \<times> conn" where
  "upsert_activity userId uname rs channelId channelName ts c =
     (let (f, c1) = next_fault c in
      if f then (Throw IoError, c1)
      else (Ok (), c1\<lparr>db := (db c1)\<lparr>channel_activity :=
              upsert_rows \<lparr>user_id = userId, username = uname, roles = rs,
                           channel_id = channelId, channel_name = channelName,
                           message_count = 1, last_message = ts\<rparr>
                (channel_activity (db c1))\<rparr>\<rparr>))"

text \<open>\<open>message.member || await message.guild.members.fetch(...).catch(() => null)\<close>\<close>

definition resolved_member :: "message \<Rightarrow> string list option" where
  "resolved_member m =
     (case msg_member m of Some rs \<Rightarrow> Some rs | None \<Rightarrow> fetched_member m)"

text \<open>
  \<open>processMessage(db, message)\<close>; \<open>ts\<close> is \<open>CURRENT_TIMESTAMP\<close> at the upsert. A raise
  of the statement is caught and logged, and the message is dropped.
\<close>

definition processMessage :: "nat \<Rightarrow> message \<Rightarrow> conn \<Rightarrow> conn" where
  "processMessage ts m c =
     (if author_bot m then c
      else
        (let member = resolved_member m in
         if member = None \<or> \<not> hasTargetRole member then c
         else
           (case upsert_activity (author_id m) (author_tag m) (getUserRoles member)
                   (msg_channel_id m) (msg_channel_name m) ts c of
              (Throw e, c1) \<Rightarrow> c1
            | (Ok u, c1) \<Rightarrow> c1)))"

text \<open>The messages that reach the upsert: not from a bot, from a member with a target role.\<close>

definition qualifies :: "message \<Rightarrow> bool" where
  "qualifies m \<longleftrightarrow> \<not> author_bot m \<and> hasTargetRole (resolved_member m)"

text \<open>A run of \<open>processMessage\<close> over the messages in the order of their arrival.\<close>

fun process_all :: "(nat \<times> message) list \<Rightarrow> conn \<Rightarrow> conn" where
  "process_all [] c = c"
| "process_all ((ts, m) # rest) c = process_all rest (processMessage ts m c)"

section \<open>The snapshot routes of the server\<close>

text \<open>
  The handlers are modelled behind \<open>apiKeyAuth\<close> and take the id of the route as the
  number it denotes.
\<close>

definition select_snapshot_by_id :: "nat \<Rightarrow> conn \<Rightarrow> snapshot_row option outcome \<times> conn" where
  "select_snapshot_by_id i c =
     (let (f, c1) = next_fault c in
      if f then (Throw IoError, c1)
      else (Ok (find (\<lambda>s. snap_id s = i) (snapshots (db c1))), c1))"

definition select_max_id :: "conn \<Rightarrow> nat option outcome \<times> conn" where
  "select_max_id c =
     (let (f, c1) = next_fault c in
      if f then (Throw IoError, c1)
      else (Ok (max_snapshot_id (db c1)), c1))"

definition delete_snapshot_data :: "nat \<Rightarrow> conn \<Rightarrow> unit outcome \<times> conn" where
  "delete_snapshot_data i c =
     (let (f, c1) = next_fault c in
      if f then (Throw IoError, c1)
      else (Ok (), c1\<lparr>db := (db c1)\<lparr>snapshot_data :=
              filter (\<lambda>r. snapshot_id r \<noteq> i) (snapshot_data (db c1))\<rparr>\<rparr>))"

definition delete_snapshot_row :: "nat \<Rightarrow> conn \<Rightarrow> unit outcome \<times> conn" where
  "delete_snapshot_row i c =
     (let (f, c1) = next_fault c in
      if f then (Throw IoError, c1)
      else (Ok (), c1\<lparr>db := (db c1)\<lparr>snapshots :=
              filter (\<lambda>s. snap_id s \<noteq> i) (snapshots (db c1))\<rparr>\<rparr>))"

text \<open>
  \<open>UPDATE sqlite_sequence SET seq = ? WHERE name = 'snapshots'\<close>: changes the row when
  there is one.
\<close>

definition update_sequence :: "nat \<Rightarrow> conn \<Rightarrow> unit outcome \<times> conn" where
  "update_sequence v c =
     (let (f, c1) = next_fault c in
      if f then (Throw IoError, c1)
      else (Ok (), c1\<lparr>db := (db c1)\<lparr>sqlite_sequence :=
              (case sqlite_sequence (db c1) of None \<Rightarrow> None | Some q \<Rightarrow> Some v)\<rparr>\<rparr>))"

datatype delete_response = DeleteOk nat bool | DeleteNotFound | DeleteFailed

text \<open>\<open>maxId || 0\<close>, on the result of \<open>SELECT MAX(id)\<close>.\<close>

definition or_zero :: "nat option \<Rightarrow> nat" where
  "or_zero m = (case m of None \<Rightarrow> 0 | Some v \<Rightarrow> v)"

text \<open>The \<open>try\<close> block of the delete route, after \<open>BEGIN TRANSACTION\<close>.\<close>

definition delete_try :: "nat \<Rightarrow> bool \<Rightarrow> conn \<Rightarrow> unit outcome \<times> conn" where
  "delete_try snapshotId isLastSnapshot c =
     (case delete_snapshot_data snapshotId c of
        (Throw e, c1) \<Rightarrow> (Throw e, c1)
      | (Ok u, c1) \<Rightarrow>
          (case delete_snapshot_row snapshotId c1 of
             (Throw e, c2) \<Rightarrow> (Throw e, c2)
           | (Ok u, c2) \<Rightarrow>
               (case (if isLastSnapshot then
                        (case select_max_id c2 of
                           (Throw e, c3) \<Rightarrow> (Throw e, c3)
                         | (Ok newMaxId, c3) \<Rightarrow>
                             update_sequence (or_zero newMaxId) c3)
                      else (Ok (), c2)) of
                  (Throw e, c4) \<Rightarrow> (Throw e, c4)
                | (Ok u, c4) \<Rightarrow> commit c4)))"

text \<open>
  \<open>app.delete('/api/snapshots/:id')\<close>: 404 when the id is absent, 200 with
  \<open>autoIncrementReset\<close>, or 500.
\<close>

definition delete_snapshot_route :: "nat \<Rightarrow> conn \<Rightarrow> delete_response \<times> conn" where
  "delete_snapshot_route snapshotId c =
     (case select_snapshot_by_id snapshotId c of
        (Throw e, c1) \<Rightarrow> (DeleteFailed, c1)
      | (Ok None, c1) \<Rightarrow> (DeleteNotFound, c1)
      | (Ok (Some snapshot), c1) \<Rightarrow>
          (case select_max_id c1 of
             (Throw e, c2) \<Rightarrow> (DeleteFailed, c2)
           | (Ok maxId, c2) \<Rightarrow>
               (let isLastSnapshot = (maxId = Some snapshotId) in
                case begin_transaction c2 of
                  (Throw e, c3) \<Rightarrow> (DeleteFailed, c3)
                | (Ok u, c3) \<Rightarrow>
                    (case delete_try snapshotId isLastSnapshot c3 of
                       (Ok u', c4) \<Rightarrow> (DeleteOk snapshotId isLastSnapshot, c4)
                     | (Throw e, c4) \<Rightarrow>
                         (case rollback c4 of
                            (Throw e', c5) \<Rightarrow> (DeleteFailed, c5)
                          | (Ok u', c5) \<Rightarrow> (DeleteFailed, c5))))))"

















section \<open>\<open>cleanupOldSnapshots\<close>\<close>

text \<open>\<open>SELECT id FROM snapshots ORDER BY created_at DESC\<close>\<close>

definition select_snapshot_ids :: "conn \<Rightarrow> nat list outcome \<times> conn" where
  "select_snapshot_ids c =
     (let (f, c1) = next_fault c in
      if f then (Throw IoError, c1)
      else (Ok (map snap_id (sort_key (\<lambda>s. - int (created_at s)) (snapshots (db c1)))), c1))"

text \<open>\<open>Array.prototype.slice(k)\<close>: a negative \<open>k\<close> counts from the end.\<close>

definition js_slice :: "int \<Rightarrow> 'a list \<Rightarrow> 'a list" where
  "js_slice k xs = (if k < 0 then drop (nat (int (length xs) + k)) xs else drop (nat k) xs)"

fun delete_each :: "nat list \<Rightarrow> conn \<Rightarrow> unit outcome \<times> conn" where
  "delete_each [] c = (Ok (), c)"
| "delete_each (i # rest) c =
     (case delete_snapshot_data i c of
        (Throw e, c1) \<Rightarrow> (Throw e, c1)
      | (Ok u, c1) \<Rightarrow>
          (case delete_snapshot_row i c1 of
             (Throw e, c2) \<Rightarrow> (Throw e, c2)
           | (Ok u', c2) \<Rightarrow> delete_each rest c2))"

text \<open>
  \<open>cleanupOldSnapshots(db, keepCount = 100)\<close>; the argument is \<open>None\<close> when the caller
  passes none, and the default applies.
\<close>

definition cleanupOldSnapshots :: "int option \<Rightarrow> conn \<Rightarrow> conn" where
  "cleanupOldSnapshots arg c =
     (let keepCount = (case arg of None \<Rightarrow> 100 | Some k \<Rightarrow> k) in
      case select_snapshot_ids c of
        (Throw e, c1) \<Rightarrow> c1
      | (Ok snaps, c1) \<Rightarrow>
          if int (length snaps) \<le> keepCount then c1
          else
            (let snapshotsToDelete = js_slice keepCount snaps in
             case begin_transaction c1 of
               (Throw e, c2) \<Rightarrow> c2
             | (Ok u, c2) \<Rightarrow>
                 (case (case delete_each snapshotsToDelete c2 of
                          (Throw e, c3) \<Rightarrow> (Throw e, c3)
                        | (Ok u', c3) \<Rightarrow> commit c3) of
                    (Ok u', c4) \<Rightarrow> c4
                  | (Throw e, c4) \<Rightarrow>
                      (case rollback c4 of
                         (Throw e', c5) \<Rightarrow> c5
                       | (Ok u', c5) \<Rightarrow> c5))))"

section \<open>The scheduler\<close>

text \<open>
  \<open>new Date(lastSnapshot.created_at + 'Z')\<close> reads the stored second as UTC; times of the
  scheduler are milliseconds since the epoch.
\<close>

definition select_last_created_at :: "conn \<Rightarrow> nat option outcome \<times> conn" where
  "select_last_created_at c =
     (let (f, c1) = next_fault c in
      if f then (Throw IoError, c1)
      else (Ok (case sort_key (\<lambda>s. - int (created_at s)) (snapshots (db c1)) of
                  [] \<Rightarrow> None
                | s # ss \<Rightarrow> Some (created_at s)), c1))"

definition getLastSnapshotTime :: "conn \<Rightarrow> int option \<times> conn" where
  "getLastSnapshotTime c =
     (case select_last_created_at c of
        (Throw e, c1) \<Rightarrow> (None, c1)
      | (Ok None, c1) \<Rightarrow> (None, c1)
      | (Ok (Some t), c1) \<Rightarrow> (Some (int t * 1000), c1))"

definition SNAPSHOT_INTERVAL :: int where
  "SNAPSHOT_INTERVAL = 1000 * 4 * 60 * 60"

datatype call = CreateSnapshotCall | CleanupCall "int option"

text \<open>
  \<open>await createSnapshot(db); await cleanupOldSnapshots(db);\<close>, the body of the first-run
  branch and of both timer callbacks, with the calls it makes in their order.
\<close>

definition snapshot_then_cleanup :: "date \<Rightarrow> nat \<Rightarrow> conn \<Rightarrow> call list \<times> conn" where
  "snapshot_then_cleanup now ts c =
     (let (r, c1) = createSnapshot now ts c;
          c2 = cleanupOldSnapshots None c1
      in ([CreateSnapshotCall, CleanupCall None], c2))"

text \<open>
  \<open>setupAutomaticSnapshots(db)\<close> up to its \<open>setTimeout\<close>: the calls made before the timer
  is set, and \<open>initialDelay\<close>. \<open>date_now\<close> is \<open>Date.now()\<close>; \<open>now\<close> and \<open>ts\<close> are the
  clock readings of the first-run snapshot.
\<close>

definition setupAutomaticSnapshots ::
  "int \<Rightarrow> date \<Rightarrow> nat \<Rightarrow> conn \<Rightarrow> (call list \<times> int) \<times> conn" where
  "setupAutomaticSnapshots date_now now ts c =
     (case getLastSnapshotTime c of
        (Some lastSnapshotTime, c1) \<Rightarrow>
          (let now' = date_now - (1 * 60 * 60 * 1000);
               timeSinceLastSnapshot = now' - lastSnapshotTime
           in if timeSinceLastSnapshot < SNAPSHOT_INTERVAL
              then (([], SNAPSHOT_INTERVAL - timeSinceLastSnapshot), c1)
              else (([], 0), c1))
      | (None, c1) \<Rightarrow>
          (let (calls, c2) = snapshot_then_cleanup now ts c1 in ((calls, 0), c2)))"


text \<open>
  The timers of the event loop. A timer is due at a time in milliseconds after
  \<open>setupAutomaticSnapshots\<close> was called; \<open>every\<close> is the period of a \<open>setInterval\<close> timer
  and \<open>None\<close> for a \<open>setTimeout\<close> one. The two callbacks of the program are the one
  handed to \<open>setTimeout\<close>, which arms the interval timer and runs the snapshot body, and
  the one handed to \<open>setInterval\<close>, which runs the snapshot body. The trace lists the
  calls of \<open>createSnapshot\<close> and \<open>cleanupOldSnapshots\<close> with the time of the firing that
  made them. A body is taken to end before the next timer is due.
\<close>

datatype callback = StartRecurring | SnapshotBody

record timer =
  due :: int
  every :: "int option"
  callback :: callback

record event_loop =
  conn_of :: conn
  timers :: "timer list"
  trace :: "(int \<times> call) list"

definition run_body :: "int \<Rightarrow> date \<Rightarrow> nat \<Rightarrow> event_loop \<Rightarrow> event_loop" where
  "run_body t now ts l =
     (let (calls, c') = snapshot_then_cleanup now ts (conn_of l)
      in l\<lparr>conn_of := c', trace := trace l @ map (Pair t) calls\<rparr>)"

text \<open>
  \<open>setupAutomaticSnapshots(db)\<close> as a whole: its first part at time 0, then
  \<open>setTimeout(..., initialDelay)\<close>.
\<close>

definition scheduler_start :: "int \<Rightarrow> date \<Rightarrow> nat \<Rightarrow> conn \<Rightarrow> event_loop" where
  "scheduler_start date_now now ts c =
     (let ((calls, initialDelay), c') = setupAutomaticSnapshots date_now now ts c
      in \<lparr>conn_of = c',
          timers = [\<lparr>due = initialDelay, every = None, callback = StartRecurring\<rparr>],
          trace = map (Pair 0) calls\<rparr>)"

text \<open>The timer to fire next: the first of those with the least due time.\<close>

fun earliest :: "timer list \<Rightarrow> timer option" where
  "earliest [] = None"
| "earliest (tm # rest) =
     (case earliest rest of
        None \<Rightarrow> Some tm
      | Some tm' \<Rightarrow> if due tm' < due tm then Some tm' else Some tm)"

text \<open>
  One turn of the event loop: the next timer fires, an interval timer is set again one
  period later, and the callback runs with the clock readings \<open>now\<close> and \<open>ts\<close>.
\<close>

definition fire :: "date \<Rightarrow> nat \<Rightarrow> event_loop \<Rightarrow> event_loop" where
  "fire now ts l =
     (case earliest (timers l) of
        None \<Rightarrow> l
      | Some tm \<Rightarrow>
          (let rest = remove1 tm (timers l);
               again = (case every tm of
                          None \<Rightarrow> rest
                        | Some p \<Rightarrow> rest @ [tm\<lparr>due := due tm + p\<rparr>]);
               l1 = l\<lparr>timers := again\<rparr>
           in case callback tm of
                StartRecurring \<Rightarrow>
                  run_body (due tm) now ts
                    (l1\<lparr>timers := timers l1 @
                        [\<lparr>due = due tm + SNAPSHOT_INTERVAL, every = Some SNAPSHOT_INTERVAL,
                          callback = SnapshotBody\<rparr>]\<rparr>)
              | SnapshotBody \<Rightarrow> run_body (due tm) now ts l1))"

fun run_events :: "(date \<times> nat) list \<Rightarrow> event_loop \<Rightarrow> event_loop" where
  "run_events [] l = l"
| "run_events ((now, ts) # rest) l = run_events rest (fire now ts l)"

section \<open>Well-formed tables\<close>

text \<open>
  The constraints of the schema, and what SQLite keeps of \<open>sqlite_sequence\<close>: keys are
  unique, AUTOINCREMENT ids are positive, every frozen row belongs to a snapshot, and the
  sequence row exists and bounds the ids as soon as a snapshot exists.
\<close>

definition activity_key :: "activity_row \<Rightarrow> string \<times> string" where
  "activity_key r = (user_id r, channel_id r)"

definition wf_db :: "database \<Rightarrow> bool" where
  "wf_db d \<longleftrightarrow>
     distinct (map activity_key (channel_activity d)) \<and>
     distinct (map snap_id (snapshots d)) \<and>
     list_all (\<lambda>s. 0 < snap_id s) (snapshots d) \<and>
     distinct (map snap_name (snapshots d)) \<and>
     distinct (map sd_key (snapshot_data d)) \<and>
     list_all (\<lambda>r. snapshot_id r \<in> set (map snap_id (snapshots d))) (snapshot_data d) \<and>
     (case sqlite_sequence d of
        None \<Rightarrow> snapshots d = []
      | Some q \<Rightarrow> list_all (\<lambda>s. snap_id s \<le> q) (snapshots d))"

section \<open>Example states\<close>

definition ex_date :: date where
  "ex_date = \<lparr>year = 2024, month = 5, day = 17, hours = 9, minutes = 3, seconds = 41,
              milliseconds = 7\<rparr>"

text \<open>One snapshot, no activity, no open transaction, no fault to come.\<close>

definition ex_idle :: conn where
  "ex_idle =
     \<lparr>db = \<lparr>channel_activity = [],
            snapshots = [\<lparr>snap_id = 1, snap_name = ''first'', created_at = 10\<rparr>],
            snapshot_data =
              [\<lparr>snapshot_id = 1, sd_user_id = ''u1'', sd_username = ''ann'', sd_roles = ''Prover'',
                sd_channel_id = ''c1'', sd_channel_name = ''general'', sd_message_count = 2\<rparr>],
            sqlite_sequence = Some 1\<rparr>,
      txn = None, faults = []\<rparr>"

definition ex_row_a :: activity_row where
  "ex_row_a = \<lparr>user_id = ''u1'', username = ''ann'', roles = ''Prover'', channel_id = ''c1'',
               channel_name = ''general'', message_count = 3, last_message = 15\<rparr>"

definition ex_faulty_create :: conn where
  "ex_faulty_create =
     \<lparr>db = (db ex_idle)\<lparr>channel_activity := [ex_row_a]\<rparr>, txn = None,
      faults = [False, False, False, True]\<rparr>"

definition ex_faulty_delete :: conn where
  "ex_faulty_delete = ex_idle\<lparr>faults := [False, False, False, False, True]\<rparr>"

definition ex_fresh :: conn where
  "ex_fresh =
     \<lparr>db = \<lparr>channel_activity = [ex_row_a], snapshots = [], snapshot_data = [],
            sqlite_sequence = None\<rparr>,
      txn = None, faults = []\<rparr>"

section \<open>Effects, stated on the tables\<close>

text \<open>
  The tables after the rows of the snapshots \<open>ids\<close> have been deleted, and after a
  snapshot with id \<open>i\<close> has been committed.
\<close>

definition without :: "nat list \<Rightarrow> database \<Rightarrow> database" where
  "without ids d =
     d\<lparr>snapshot_data := filter (\<lambda>r. snapshot_id r \<notin> set ids) (snapshot_data d),
       snapshots := filter (\<lambda>s. snap_id s \<notin> set ids) (snapshots d)\<rparr>"

definition with_snapshot :: "nat \<Rightarrow> string \<Rightarrow> nat \<Rightarrow> database \<Rightarrow> database" where
  "with_snapshot i nm ts d =
     d\<lparr>snapshots := snapshots d @ [\<lparr>snap_id = i, snap_name = nm, created_at = ts\<rparr>],
       sqlite_sequence := Some i,
       snapshot_data := snapshot_data d @
         map (frozen_row i) (sort_key (\<lambda>r. (user_id r, - message_count r)) (channel_activity d))\<rparr>"

definition ex_five :: conn where
  "ex_five =
     \<lparr>db = \<lparr>channel_activity = [],
            snapshots =
              [\<lparr>snap_id = 1, snap_name = ''a'', created_at = 10\<rparr>,
               \<lparr>snap_id = 2, snap_name = ''b'', created_at = 20\<rparr>,
               \<lparr>snap_id = 3, snap_name = ''c'', created_at = 30\<rparr>,
               \<lparr>snap_id = 4, snap_name = ''d'', created_at = 40\<rparr>,
               \<lparr>snap_id = 5, snap_name = ''e'', created_at = 50\<rparr>],
            snapshot_data =
              [\<lparr>snapshot_id = 2, sd_user_id = ''u1'', sd_username = ''ann'', sd_roles = ''Prover'',
                sd_channel_id = ''c1'', sd_channel_name = ''general'', sd_message_count = 2\<rparr>,
               \<lparr>snapshot_id = 5, sd_user_id = ''u1'', sd_username = ''ann'', sd_roles = ''Prover'',
                sd_channel_id = ''c1'', sd_channel_name = ''general'', sd_message_count = 7\<rparr>],
            sqlite_sequence = Some 5\<rparr>,
      txn = None, faults = []\<rparr>"

definition ex_three :: conn where
  "ex_three =
     \<lparr>db = \<lparr>channel_activity = [ex_row_a],
            snapshots =
              [\<lparr>snap_id = 1, snap_name = ''a'', created_at = 10\<rparr>,
               \<lparr>snap_id = 2, snap_name = ''b'', created_at = 20\<rparr>,
               \<lparr>snap_id = 3, snap_name = ''c'', created_at = 30\<rparr>],
            snapshot_data = [],
            sqlite_sequence = Some 3\<rparr>,
      txn = None, faults = []\<rparr>"

text \<open>The same after the route has deleted snapshot 2: ids 1 and 3 remain.\<close>

definition ex_gap :: conn where
  "ex_gap =
     \<lparr>db = \<lparr>channel_activity = [ex_row_a],
            snapshots =
              [\<lparr>snap_id = 1, snap_name = ''a'', created_at = 10\<rparr>,
               \<lparr>snap_id = 3, snap_name = ''c'', created_at = 30\<rparr>],
            snapshot_data = [],
            sqlite_sequence = Some 3\<rparr>,
      txn = None, faults = []\<rparr>"

section \<open>Counting per identity\<close>

text \<open>
  The rows of one identity (user, channel), the row a qualifying message inserts, and the
  messages of a run that reach the upsert for one identity.
\<close>

definition for_identity :: "string \<Rightarrow> string \<Rightarrow> activity_row \<Rightarrow> bool" where
  "for_identity u ch r \<longleftrightarrow> user_id r = u \<and> channel_id r = ch"

definition new_row :: "nat \<Rightarrow> message \<Rightarrow> activity_row" where
  "new_row ts m =
     \<lparr>user_id = author_id m, username = author_tag m,
      roles = getUserRoles (resolved_member m), channel_id = msg_channel_id m,
      channel_name = msg_channel_name m, message_count = 1, last_message = ts\<rparr>"

definition calls_for :: "string \<Rightarrow> string \<Rightarrow> (nat \<times> message) list \<Rightarrow> (nat \<times> message) list" where
  "calls_for u ch ms =
     filter (\<lambda>(ts, m). qualifies m \<and> author_id m = u \<and> msg_channel_id m = ch) ms"

definition ex_msg_a :: message where
  "ex_msg_a =
     \<lparr>author_bot = False, author_id = ''u7'', author_tag = ''ann#1'',
      msg_member = Some [''@everyone'', ''Prover''], fetched_member = None,
      msg_channel_id = ''c9'', msg_channel_name = ''general''\<rparr>"

definition ex_msg_b :: message where
  "ex_msg_b =
     \<lparr>author_bot = False, author_id = ''u7'', author_tag = ''ann#2'',
      msg_member = None, fetched_member = Some [''@everyone'', ''Proofer'', ''Helper''],
      msg_channel_id = ''c9'', msg_channel_name = ''chat''\<rparr>"

definition ex_msg_bot :: message where
  "ex_msg_bot = ex_msg_a\<lparr>author_bot := True\<rparr>"

definition ex_msg_other :: message where
  "ex_msg_other = ex_msg_a\<lparr>author_id := ''u8'', author_tag := ''bob#3''\<rparr>"

definition ex_messages :: "(nat \<times> message) list" where
  "ex_messages = [(1, ex_msg_a), (2, ex_msg_bot), (3, ex_msg_other), (4, ex_msg_b)]"

section \<open>The projection of a snapshot\<close>



definition ex_busy :: conn where
  "ex_busy =
     \<lparr>db = \<lparr>channel_activity =
              [\<lparr>user_id = ''u1'', username = ''ann'', roles = ''Prover'', channel_id = ''c1'',
                channel_name = ''general'', message_count = 3, last_message = 15\<rparr>,
               \<lparr>user_id = ''u2'', username = ''bob'', roles = ''Proofer'', channel_id = ''c1'',
                channel_name = ''general'', message_count = 4, last_message = 16\<rparr>,
               \<lparr>user_id = ''u1'', username = ''ann'', roles = ''Prover'', channel_id = ''c2'',
                channel_name = ''art'', message_count = 5, last_message = 17\<rparr>],
            snapshots = [\<lparr>snap_id = 1, snap_name = ''first'', created_at = 10\<rparr>],
            snapshot_data =
              [\<lparr>snapshot_id = 1, sd_user_id = ''u1'', sd_username = ''ann'', sd_roles = ''Prover'',
                sd_channel_id = ''c1'', sd_channel_name = ''general'', sd_message_count = 2\<rparr>],
            sqlite_sequence = Some 1\<rparr>,
      txn = None, faults = []\<rparr>"




section \<open>Instants and their names\<close>

text \<open>
  The field ranges of an instant whose year has four digits, and the fields in the order
  in which they decide which of two instants is earlier.
\<close>

definition valid_date :: "date \<Rightarrow> bool" where
  "valid_date d \<longleftrightarrow>
     0 \<le> year d \<and> year d \<le> 9999 \<and> 1 \<le> month d \<and> month d \<le> 12 \<and>
     1 \<le> day d \<and> day d \<le> 31 \<and> hours d < 24 \<and> minutes d < 60 \<and> seconds d < 60 \<and>
     milliseconds d < 1000"

definition date_key :: "date \<Rightarrow> int \<times> nat \<times> nat \<times> nat \<times> nat \<times> nat \<times> nat" where
  "date_key d = (year d, month d, day d, hours d, minutes d, seconds d, milliseconds d)"

definition ex_date_later :: date where
  "ex_date_later = ex_date\<lparr>seconds := 42, milliseconds := 0\<rparr>"

section \<open>Runs of the scheduler\<close>

text \<open>
  A third clock reading, four hours after the first, and a store that already holds 100
  snapshots, with ids 1 to 100 in the order of their creation.
\<close>

definition ex_date_third :: date where
  "ex_date_third = ex_date\<lparr>hours := 13\<rparr>"

definition ex_hundred :: conn where
  "ex_hundred =
     \<lparr>db = \<lparr>channel_activity = [ex_row_a],
            snapshots =
              map (\<lambda>i. \<lparr>snap_id = i, snap_name = pad 3 i, created_at = 1000 + i\<rparr>) [1..<101],
            snapshot_data = [],
            sqlite_sequence = Some 100\<rparr>,
      txn = None, faults = []\<rparr>"

section \<open>Statements keep the saved tables\<close>

lemma next_fault_keeps:
  "next_fault c = (f, c1) \<Longrightarrow> db c1 = db c \<and> txn c1 = txn c"
  by (auto simp: next_fault_def split: list.splits)

lemma begin_transaction_Ok:
  "begin_transaction c = (Ok u, c1) \<Longrightarrow> txn c = None \<and> txn c1 = Some (db c) \<and> db c1 = db c"
  by (auto simp: begin_transaction_def Let_def split: prod.splits if_splits option.splits
      dest: next_fault_keeps)

lemma begin_transaction_Throw:
  "begin_transaction c = (Throw e, c1) \<Longrightarrow> txn c1 = txn c \<and> db c1 = db c"
  by (auto simp: begin_transaction_def Let_def split: prod.splits if_splits option.splits
      dest: next_fault_keeps)

lemma rollback_open:
  "txn c = Some s \<Longrightarrow> rollback c = (Ok (), c\<lparr>db := s, txn := None\<rparr>)"
  by (simp add: rollback_def)

lemma insert_snapshot_txn:
  "insert_snapshot nm ts c = (r, c1) \<Longrightarrow> txn c1 = txn c"
  by (auto simp: insert_snapshot_def Let_def split: prod.splits if_splits
      dest: next_fault_keeps)

lemma select_channel_activity_txn:
  "select_channel_activity c = (r, c1) \<Longrightarrow> txn c1 = txn c"
  by (auto simp: select_channel_activity_def Let_def split: prod.splits if_splits
      dest: next_fault_keeps)

lemma select_channel_activity_Ok:
  "select_channel_activity c = (Ok data, c1) \<Longrightarrow>
     db c1 = db c \<and>
     data = sort_key (\<lambda>r. (user_id r, - message_count r)) (channel_activity (db c))"
  by (auto simp: select_channel_activity_def Let_def split: prod.splits if_splits
      dest: next_fault_keeps)

lemma insert_snapshot_data_txn:
  "insert_snapshot_data rows c = (r, c1) \<Longrightarrow> txn c1 = txn c"
  by (auto simp: insert_snapshot_data_def Let_def split: prod.splits if_splits
      dest: next_fault_keeps)

lemma insert_chunks_txn:
  "insert_chunks snapshotId data i c = (r, c1) \<Longrightarrow> txn c1 = txn c"
proof (induction snapshotId data i c rule: insert_chunks.induct)
  case (1 snapshotId data i c)
  show ?case
  proof (cases "i < length data")
    case False
    with "1.prems" show ?thesis by (simp add: insert_chunks.simps)
  next
    case True
    obtain q c2 where step:
      "insert_snapshot_data (map (frozen_row snapshotId) (take chunkSize (drop i data))) c = (q, c2)"
      by (cases "insert_snapshot_data (map (frozen_row snapshotId) (take chunkSize (drop i data))) c")
    have t2: "txn c2 = txn c" using step by (rule insert_snapshot_data_txn)
    show ?thesis
    proof (cases q)
      case (Throw e)
      with "1.prems" True step t2 show ?thesis by (simp add: insert_chunks.simps)
    next
      case (Ok u)
      with "1.prems" True step have "insert_chunks snapshotId data (i + chunkSize) c2 = (r, c1)"
        by (simp add: insert_chunks.simps)
      with "1.IH" [OF True step [symmetric] Ok] t2 show ?thesis by simp
    qed
  qed
qed

lemma commit_Throw:
  "commit c = (Throw e, c1) \<Longrightarrow> txn c1 = txn c"
  by (auto simp: commit_def Let_def split: prod.splits if_splits option.splits
      dest: next_fault_keeps)

section \<open>An empty store yields no snapshot\<close>

lemma insert_snapshot_Ok:
  "insert_snapshot nm ts c = (Ok i, c1) \<Longrightarrow>
     i = new_rowid (db c) \<and> nm \<notin> set (map snap_name (snapshots (db c))) \<and>
     db c1 = (db c)\<lparr>snapshots := snapshots (db c) @ [\<lparr>snap_id = i, snap_name = nm, created_at = ts\<rparr>],
                    sqlite_sequence := Some i\<rparr>"
  by (auto simp: insert_snapshot_def Let_def split: prod.splits if_splits
      dest: next_fault_keeps)

lemma createSnapshot_try_Throw_txn:
  assumes "createSnapshot_try nm ts c = (Throw e, c2)"
  shows "txn c2 = txn c"
  using assms
  by (auto simp: createSnapshot_try_def rollback_def
      split: prod.splits outcome.splits if_splits option.splits
      dest!: insert_snapshot_txn select_channel_activity_txn insert_chunks_txn commit_Throw)

lemma createSnapshot_try_empty:
  assumes "txn c = Some s" "channel_activity (db c) = []"
    and "createSnapshot_try nm ts c = (Ok r, c2)"
  shows "r = None \<and> db c2 = s \<and> txn c2 = None"
proof -
  obtain i c1 where ins: "insert_snapshot nm ts c = (Ok i, c1)"
    using assms(3) by (auto simp: createSnapshot_try_def split: prod.splits outcome.splits)
  obtain data c3 where sel: "select_channel_activity c1 = (Ok data, c3)"
    using assms(3) ins by (auto simp: createSnapshot_try_def split: prod.splits outcome.splits)
  have "channel_activity (db c1) = []"
    using insert_snapshot_Ok [OF ins] assms(2) by simp
  then have d: "data = []" using select_channel_activity_Ok [OF sel] by simp
  have "txn c3 = Some s"
    using insert_snapshot_txn [OF ins] select_channel_activity_txn [OF sel] assms(1) by simp
  then have "rollback c3 = (Ok (), c3\<lparr>db := s, txn := None\<rparr>)" by (rule rollback_open)
  with assms(3) ins sel d show ?thesis by (auto simp: createSnapshot_try_def)
qed

text \<open>
  C3. Whenever \<open>channel_activity\<close> holds no row, \<open>createSnapshot\<close> returns null and
  leaves every table and the sequence row as they were, whatever storage faults occur: the
  snapshot row inserted inside the transaction is rolled back.
\<close>

theorem createSnapshot_empty_store:
  assumes "channel_activity (db c) = []"
  shows "fst (createSnapshot now ts c) = None \<and>
         db (snd (createSnapshot now ts c)) = db c \<and>
         txn (snd (createSnapshot now ts c)) = txn c"
proof (cases "begin_transaction c")
  case (Pair b c1)
  show ?thesis
  proof (cases b)
    case (Throw e)
    with Pair begin_transaction_Throw [of c e c1] show ?thesis
      by (simp add: createSnapshot_def)
  next
    case (Ok u)
    with Pair have bt: "txn c = None" "txn c1 = Some (db c)" "db c1 = db c"
      using begin_transaction_Ok [of c u c1] by simp_all
    obtain q c2 where body: "createSnapshot_try (snapshot_name now) ts c1 = (q, c2)"
      by (cases "createSnapshot_try (snapshot_name now) ts c1")
    show ?thesis
    proof (cases q)
      case (Ok r)
      with body bt assms createSnapshot_try_empty [of c1 "db c" "snapshot_name now" ts r c2]
      have "r = None \<and> db c2 = db c \<and> txn c2 = None" by simp
      with Pair \<open>b = Ok u\<close> body Ok bt show ?thesis by (simp add: createSnapshot_def)
    next
      case (Throw e)
      with body have "txn c2 = Some (db c)"
        using createSnapshot_try_Throw_txn [of "snapshot_name now" ts c1 e c2] bt by simp
      then have "rollback c2 = (Ok (), c2\<lparr>db := db c, txn := None\<rparr>)" by (rule rollback_open)
      with Pair \<open>b = Ok u\<close> body Throw bt show ?thesis by (simp add: createSnapshot_def)
    qed
  qed
qed

theorem createSnapshot_empty_store_witness:
  "channel_activity (db ex_idle) = [] \<and>
   fst (createSnapshot ex_date 20 ex_idle) = None \<and>
   db (snd (createSnapshot ex_date 20 ex_idle)) = db ex_idle"
  using createSnapshot_empty_store [of ex_idle ex_date 20] by (simp add: ex_idle_def)

section \<open>A failed transaction is rolled back\<close>

lemma select_snapshot_by_id_keeps:
  "select_snapshot_by_id i c = (r, c1) \<Longrightarrow> txn c1 = txn c \<and> db c1 = db c"
  by (auto simp: select_snapshot_by_id_def Let_def split: prod.splits if_splits
      dest: next_fault_keeps)

lemma select_max_id_keeps:
  "select_max_id c = (r, c1) \<Longrightarrow> txn c1 = txn c \<and> db c1 = db c"
  by (auto simp: select_max_id_def Let_def split: prod.splits if_splits
      dest: next_fault_keeps)

lemma delete_snapshot_data_txn:
  "delete_snapshot_data i c = (r, c1) \<Longrightarrow> txn c1 = txn c"
  by (auto simp: delete_snapshot_data_def Let_def split: prod.splits if_splits
      dest: next_fault_keeps)

lemma delete_snapshot_row_txn:
  "delete_snapshot_row i c = (r, c1) \<Longrightarrow> txn c1 = txn c"
  by (auto simp: delete_snapshot_row_def Let_def split: prod.splits if_splits
      dest: next_fault_keeps)

lemma update_sequence_txn:
  "update_sequence v c = (r, c1) \<Longrightarrow> txn c1 = txn c"
  by (auto simp: update_sequence_def Let_def split: prod.splits if_splits
      dest: next_fault_keeps)

lemma delete_try_Throw_txn:
  assumes "delete_try i b c = (Throw e, c2)"
  shows "txn c2 = txn c"
  using assms
  by (auto simp: delete_try_def
      split: prod.splits outcome.splits if_splits
      dest!: delete_snapshot_data_txn delete_snapshot_row_txn select_max_id_keeps
             update_sequence_txn commit_Throw)

lemma createSnapshot_try_null:
  assumes "createSnapshot_try nm ts c = (Ok None, c2)" "txn c = Some s"
  shows "db c2 = s \<and> txn c2 = None"
  using assms
  by (auto simp: createSnapshot_try_def rollback_def
      split: prod.splits outcome.splits if_splits option.splits
      dest!: insert_snapshot_txn select_channel_activity_txn)

lemma createSnapshot_failed:
  assumes "begin_transaction c = (Ok u, c1)"
    and "createSnapshot_try (snapshot_name now) ts c1 = (Throw e, c2)"
  shows "createSnapshot now ts c = (None, c2\<lparr>db := db c, txn := None\<rparr>)"
proof -
  have "txn c2 = Some (db c)"
    using createSnapshot_try_Throw_txn [OF assms(2)] begin_transaction_Ok [OF assms(1)] by simp
  then have "rollback c2 = (Ok (), c2\<lparr>db := db c, txn := None\<rparr>)" by (rule rollback_open)
  with assms show ?thesis by (simp add: createSnapshot_def)
qed

lemma createSnapshot_null_unchanged:
  assumes "createSnapshot now ts c = (None, c')"
  shows "db c' = db c"
proof (cases "begin_transaction c")
  case (Pair b c1)
  show ?thesis
  proof (cases b)
    case (Throw e)
    with Pair assms begin_transaction_Throw [of c e c1] show ?thesis
      by (simp add: createSnapshot_def)
  next
    case (Ok u)
    with Pair have bt: "begin_transaction c = (Ok u, c1)" by simp
    obtain q c2 where body: "createSnapshot_try (snapshot_name now) ts c1 = (q, c2)"
      by (cases "createSnapshot_try (snapshot_name now) ts c1")
    show ?thesis
    proof (cases q)
      case (Throw e)
      with body createSnapshot_failed [OF bt, of now ts e c2] assms show ?thesis by auto
    next
      case (Ok r)
      with bt body assms have "r = None" "c' = c2" by (auto simp: createSnapshot_def)
      with Ok body createSnapshot_try_null [of "snapshot_name now" ts c1 c2 "db c"]
        begin_transaction_Ok [OF bt]
      show ?thesis by simp
    qed
  qed
qed

lemma delete_failed:
  assumes "select_snapshot_by_id i c = (Ok (Some s), c1)"
    and "select_max_id c1 = (Ok m, c2)"
    and "begin_transaction c2 = (Ok u, c3)"
    and "delete_try i (m = Some i) c3 = (Throw e, c4)"
  shows "delete_snapshot_route i c = (DeleteFailed, c4\<lparr>db := db c, txn := None\<rparr>)"
proof -
  have "db c2 = db c"
    using select_snapshot_by_id_keeps [OF assms(1)] select_max_id_keeps [OF assms(2)] by simp
  then have "txn c4 = Some (db c)"
    using delete_try_Throw_txn [OF assms(4)] begin_transaction_Ok [OF assms(3)] by simp
  then have "rollback c4 = (Ok (), c4\<lparr>db := db c, txn := None\<rparr>)" by (rule rollback_open)
  with assms show ?thesis by (simp add: delete_snapshot_route_def)
qed

lemma delete_not_ok_unchanged:
  assumes "delete_snapshot_route i c = (r, c')" "\<And>b. r \<noteq> DeleteOk i b"
  shows "db c' = db c"
proof -
  obtain q1 c1 where s1: "select_snapshot_by_id i c = (q1, c1)"
    by (cases "select_snapshot_by_id i c")
  obtain q2 c2 where s2: "select_max_id c1 = (q2, c2)"
    by (cases "select_max_id c1")
  obtain q3 c3 where s3: "begin_transaction c2 = (q3, c3)"
    by (cases "begin_transaction c2")
  have k1: "db c1 = db c" using select_snapshot_by_id_keeps [OF s1] by simp
  have k2: "db c2 = db c" using select_max_id_keeps [OF s2] k1 by simp
  show ?thesis
  proof (cases q1)
    case (Throw e)
    with s1 assms(1) k1 show ?thesis by (simp add: delete_snapshot_route_def)
  next
    case (Ok found)
    note q1 = this
    show ?thesis
    proof (cases found)
      case None
      with q1 s1 assms(1) k1 show ?thesis by (simp add: delete_snapshot_route_def)
    next
      case (Some s)
      note found = this
      show ?thesis
      proof (cases q2)
        case (Throw e)
        with q1 found s1 s2 assms(1) k2 show ?thesis by (simp add: delete_snapshot_route_def)
      next
        case (Ok m)
        note q2 = this
        show ?thesis
        proof (cases q3)
          case (Throw e)
          with s3 begin_transaction_Throw [of c2 e c3] have "db c3 = db c" using k2 by simp
          with Throw q1 found q2 s1 s2 s3 assms(1) show ?thesis
            by (simp add: delete_snapshot_route_def)
        next
          case (Ok u)
          note q3 = this
          obtain q4 c4 where s4: "delete_try i (m = Some i) c3 = (q4, c4)"
            by (cases "delete_try i (m = Some i) c3")
          show ?thesis
          proof (cases q4)
            case (Ok u')
            with q1 found q2 q3 s1 s2 s3 s4 assms(1) have "r = DeleteOk i (m = Some i)"
              by (simp add: delete_snapshot_route_def)
            with assms(2) show ?thesis by blast
          next
            case (Throw e)
            with q1 found q2 q3 s1 s2 s3 s4 assms(1)
              delete_failed [of i c s c1 m c2 u c3 e c4]
            show ?thesis by auto
          qed
        qed
      qed
    qed
  qed
qed

text \<open>
  C6. When a step of the \<open>try\<close> block of \<open>createSnapshot\<close> or of the delete route
  raises after \<open>BEGIN TRANSACTION\<close> has succeeded, the \<open>catch\<close> rolls back: the tables
  and the sequence row are those of before the call, no transaction stays open, and the
  caller gets the failure result (null, or the 500 response). More generally, a
  \<open>createSnapshot\<close> that returns null and a delete route that does not answer 200 leave
  the tables unchanged, so that no partial snapshot or deletion is stored.
\<close>

theorem failed_transaction_rolled_back:
  "(begin_transaction c = (Ok u, c1) \<longrightarrow>
    createSnapshot_try (snapshot_name now) ts c1 = (Throw e, c2) \<longrightarrow>
      createSnapshot now ts c = (None, c2\<lparr>db := db c, txn := None\<rparr>)) \<and>
   (fst (createSnapshot now ts c) = None \<longrightarrow> db (snd (createSnapshot now ts c)) = db c) \<and>
   (select_snapshot_by_id i d = (Ok (Some s), d1) \<longrightarrow>
    select_max_id d1 = (Ok m, d2) \<longrightarrow>
    begin_transaction d2 = (Ok v, d3) \<longrightarrow>
    delete_try i (m = Some i) d3 = (Throw e', d4) \<longrightarrow>
      delete_snapshot_route i d = (DeleteFailed, d4\<lparr>db := db d, txn := None\<rparr>)) \<and>
   ((\<forall>b. fst (delete_snapshot_route i d) \<noteq> DeleteOk i b) \<longrightarrow>
      db (snd (delete_snapshot_route i d)) = db d)"
proof (intro conjI impI)
  assume "begin_transaction c = (Ok u, c1)"
    and "createSnapshot_try (snapshot_name now) ts c1 = (Throw e, c2)"
  then show "createSnapshot now ts c = (None, c2\<lparr>db := db c, txn := None\<rparr>)"
    by (rule createSnapshot_failed)
next
  assume "fst (createSnapshot now ts c) = None"
  then have "createSnapshot now ts c = (None, snd (createSnapshot now ts c))"
    by (metis prod.collapse)
  then show "db (snd (createSnapshot now ts c)) = db c"
    by (rule createSnapshot_null_unchanged)
next
  assume "select_snapshot_by_id i d = (Ok (Some s), d1)" "select_max_id d1 = (Ok m, d2)"
    "begin_transaction d2 = (Ok v, d3)" "delete_try i (m = Some i) d3 = (Throw e', d4)"
  then show "delete_snapshot_route i d = (DeleteFailed, d4\<lparr>db := db d, txn := None\<rparr>)"
    by (rule delete_failed)
next
  assume a: "\<forall>b. fst (delete_snapshot_route i d) \<noteq> DeleteOk i b"
  have eq: "delete_snapshot_route i d =
          (fst (delete_snapshot_route i d), snd (delete_snapshot_route i d))"
    by simp
  have "fst (delete_snapshot_route i d) \<noteq> DeleteOk i b" for b
    using a by blast
  with eq show "db (snd (delete_snapshot_route i d)) = db d"
    by (rule delete_not_ok_unchanged)
qed

theorem failed_transaction_rolled_back_witness:
  "fst (begin_transaction ex_faulty_create) = Ok () \<and>
   fst (createSnapshot_try (snapshot_name ex_date) 20 (snd (begin_transaction ex_faulty_create)))
     = Throw IoError \<and>
   fst (createSnapshot ex_date 20 ex_faulty_create) = None \<and>
   db (snd (createSnapshot ex_date 20 ex_faulty_create)) = db ex_faulty_create \<and>
   fst (delete_try 1 True
          (snd (begin_transaction (snd (select_max_id (snd (select_snapshot_by_id 1 ex_faulty_delete)))))))
     = Throw IoError \<and>
   fst (delete_snapshot_route 1 ex_faulty_delete) = DeleteFailed \<and>
   db (snd (delete_snapshot_route 1 ex_faulty_delete)) = db ex_faulty_delete"
proof -
  let ?c1 = "snd (begin_transaction ex_faulty_create)"
  let ?c2 = "snd (createSnapshot_try (snapshot_name ex_date) 20 ?c1)"
  let ?d1 = "snd (select_snapshot_by_id 1 ex_faulty_delete)"
  let ?d2 = "snd (select_max_id ?d1)"
  let ?d3 = "snd (begin_transaction ?d2)"
  let ?d4 = "snd (delete_try 1 True ?d3)"
  let ?s = "\<lparr>snap_id = 1, snap_name = ''first'', created_at = 10\<rparr>"
  have b: "fst (begin_transaction ex_faulty_create) = Ok ()" by code_simp
  have t: "fst (createSnapshot_try (snapshot_name ex_date) 20 ?c1) = Throw IoError" by code_simp
  have s1: "fst (select_snapshot_by_id 1 ex_faulty_delete) = Ok (Some ?s)" by code_simp
  have s2: "fst (select_max_id ?d1) = Ok (Some 1)" by code_simp
  have s3: "fst (begin_transaction ?d2) = Ok ()" by code_simp
  have s4: "fst (delete_try 1 True ?d3) = Throw IoError" by code_simp
  have B: "begin_transaction ex_faulty_create = (Ok (), ?c1)"
    using b by (metis prod.collapse)
  have T: "createSnapshot_try (snapshot_name ex_date) 20 ?c1 = (Throw IoError, ?c2)"
    using t by (metis prod.collapse)
  have S1: "select_snapshot_by_id 1 ex_faulty_delete = (Ok (Some ?s), ?d1)"
    using s1 by (metis prod.collapse)
  have S2: "select_max_id ?d1 = (Ok (Some 1), ?d2)"
    using s2 by (metis prod.collapse)
  have S3: "begin_transaction ?d2 = (Ok (), ?d3)"
    using s3 by (metis prod.collapse)
  have S4: "delete_try 1 (Some 1 = Some (1::nat)) ?d3 = (Throw IoError, ?d4)"
    using s4 by (simp add: prod_eq_iff)
  note inst = failed_transaction_rolled_back
    [of ex_faulty_create "()" ?c1 ex_date 20 IoError ?c2 1 ex_faulty_delete ?s ?d1 "Some 1" ?d2
        "()" ?d3 IoError ?d4]
  from inst B T have p1: "createSnapshot ex_date 20 ex_faulty_create =
      (None, ?c2\<lparr>db := db ex_faulty_create, txn := None\<rparr>)" by blast
  from inst S1 S2 S3 S4 have p2: "delete_snapshot_route 1 ex_faulty_delete =
      (DeleteFailed, ?d4\<lparr>db := db ex_faulty_delete, txn := None\<rparr>)" by blast
  show ?thesis using b t s4 p1 p2 by simp
qed

section \<open>The scheduler: catching up and the first run\<close>

lemma newest_first_head:
  assumes "sort_key (\<lambda>s. - int (created_at s)) xs = s # ss"
  shows "created_at s = Max (created_at ` set xs)"
proof -
  let ?f = "\<lambda>s. - int (created_at s)"
  have srt: "sorted (map ?f (s # ss))" using assms sorted_sort_key [of ?f xs] by simp
  have st: "set (s # ss) = set xs" using assms set_sort [of ?f xs] by simp
  have "created_at x \<le> created_at s" if "x \<in> set xs" for x
  proof -
    from that st have "x = s \<or> x \<in> set ss" by auto
    then show ?thesis using srt by auto
  qed
  moreover have "s \<in> set xs" using st by auto
  ultimately show ?thesis by (intro Max_eqI [symmetric]) auto
qed

lemma select_last_created_at_Ok:
  assumes "select_last_created_at c = (Ok r, c1)" "snapshots (db c) \<noteq> []"
  shows "r = Some (Max (created_at ` set (snapshots (db c)))) \<and> db c1 = db c \<and> txn c1 = txn c"
proof -
  let ?f = "\<lambda>s. - int (created_at s)"
  obtain f c0 where nf: "next_fault c = (f, c0)" by (cases "next_fault c")
  have k: "db c0 = db c" "txn c0 = txn c" using next_fault_keeps [OF nf] by simp_all
  have "length (sort_key ?f (snapshots (db c))) = length (snapshots (db c))" by simp
  with assms(2) obtain s ss where hd: "sort_key ?f (snapshots (db c)) = s # ss"
    by (cases "sort_key ?f (snapshots (db c))") auto
  from assms(1) nf k hd have "r = Some (created_at s)" "c1 = c0"
    by (auto simp: select_last_created_at_def split: if_splits)
  with newest_first_head [OF hd] k show ?thesis by simp
qed



lemma getLastSnapshotTime_none:
  assumes "snapshots (db c) = []"
  shows "fst (getLastSnapshotTime c) = None"
proof -
  obtain f c0 where nf: "next_fault c = (f, c0)" by (cases "next_fault c")
  have "db c0 = db c" using next_fault_keeps [OF nf] by simp
  with nf assms show ?thesis
    by (simp add: getLastSnapshotTime_def select_last_created_at_def)
qed

section \<open>Fault-free runs of the statements\<close>

lemma next_fault_none: "faults c = [] \<Longrightarrow> next_fault c = (False, c)"
  by (simp add: next_fault_def)

lemma delete_each_ok:
  assumes "faults c = []"
  shows "\<exists>c'. delete_each ids c = (Ok (), c') \<and> db c' = without ids (db c) \<and>
              txn c' = txn c \<and> faults c' = []"
  using assms
proof (induction ids arbitrary: c)
  case Nil
  then show ?case by (simp add: without_def)
next
  case (Cons i ids)
  let ?c1 = "c\<lparr>db := (db c)\<lparr>snapshot_data :=
              filter (\<lambda>r. snapshot_id r \<noteq> i) (snapshot_data (db c))\<rparr>\<rparr>"
  let ?c2 = "?c1\<lparr>db := (db ?c1)\<lparr>snapshots :=
              filter (\<lambda>s. snap_id s \<noteq> i) (snapshots (db ?c1))\<rparr>\<rparr>"
  have d1: "delete_snapshot_data i c = (Ok (), ?c1)"
    using Cons.prems by (simp add: delete_snapshot_data_def next_fault_none)
  have d2: "delete_snapshot_row i ?c1 = (Ok (), ?c2)"
    using Cons.prems by (simp add: delete_snapshot_row_def next_fault_none)
  have "faults ?c2 = []" using Cons.prems by simp
  from Cons.IH [OF this] obtain c' where
    r: "delete_each ids ?c2 = (Ok (), c')" "db c' = without ids (db ?c2)"
       "txn c' = txn ?c2" "faults c' = []" by blast
  have "without ids (db ?c2) = without (i # ids) (db c)"
    by (simp add: without_def conj_commute)
  with r d1 d2 show ?case by simp
qed

lemma cleanup_effect:
  assumes "faults c = []" "txn c = None" "0 \<le> k"
    and "int (length (snapshots (db c))) > k"
  shows "db (cleanupOldSnapshots (Some k) c) =
           without (drop (nat k) (map snap_id (sort_key (\<lambda>s. - int (created_at s)) (snapshots (db c)))))
             (db c) \<and>
         txn (cleanupOldSnapshots (Some k) c) = None \<and>
         faults (cleanupOldSnapshots (Some k) c) = []"
proof -
  let ?ids = "map snap_id (sort_key (\<lambda>s. - int (created_at s)) (snapshots (db c)))"
  let ?c2 = "c\<lparr>txn := Some (db c)\<rparr>"
  have sel: "select_snapshot_ids c = (Ok ?ids, c)"
    using assms(1) by (simp add: select_snapshot_ids_def next_fault_none)
  have len: "\<not> int (length ?ids) \<le> k" using assms(4) by simp
  have sl: "js_slice k ?ids = drop (nat k) ?ids" using assms(3) by (simp add: js_slice_def)
  have bt: "begin_transaction c = (Ok (), ?c2)"
    using assms(1,2) by (simp add: begin_transaction_def next_fault_none)
  have "faults ?c2 = []" using assms(1) by simp
  from delete_each_ok [OF this, of "drop (nat k) ?ids"] obtain c3 where
    r: "delete_each (drop (nat k) ?ids) ?c2 = (Ok (), c3)"
       "db c3 = without (drop (nat k) ?ids) (db c)" "txn c3 = Some (db c)" "faults c3 = []"
    by auto
  have cm: "commit c3 = (Ok (), c3\<lparr>txn := None\<rparr>)"
    using r by (simp add: commit_def next_fault_none)
  have "cleanupOldSnapshots (Some k) c = c3\<lparr>txn := None\<rparr>"
    using sel len sl bt r(1) cm by (simp add: cleanupOldSnapshots_def Let_def)
  with r show ?thesis by simp
qed

lemma cleanup_noop:
  assumes "faults c = []" "int (length (snapshots (db c))) \<le> k"
  shows "cleanupOldSnapshots (Some k) c = c"
  using assms by (simp add: cleanupOldSnapshots_def select_snapshot_ids_def next_fault_none)

lemma newest_kept:
  fixes xs :: "snapshot_row list"
  assumes "distinct (map snap_id xs)" "k \<le> length xs"
  defines "srt \<equiv> sort_key (\<lambda>s. - int (created_at s)) xs"
  defines "kept \<equiv> filter (\<lambda>s. snap_id s \<notin> set (drop k (map snap_id srt))) xs"
  shows "set kept = set (take k srt)"
    and "length kept = k"
    and "\<forall>a\<in>set kept. \<forall>b\<in>set xs - set kept. created_at b \<le> created_at a"
proof -
  have st: "set srt = set xs" by (simp add: srt_def)
  have "mset (map snap_id srt) = mset (map snap_id xs)" by (simp add: srt_def)
  then have di: "distinct (map snap_id srt)"
    using assms(1) by (metis mset_eq_imp_distinct_iff)
  have split: "srt = take k srt @ drop k srt" by simp
  have "distinct (map snap_id (take k srt) @ map snap_id (drop k srt))"
    using di by (metis append_take_drop_id map_append)
  then have disj: "snap_id ` set (take k srt) \<inter> snap_id ` set (drop k srt) = {}"
    by auto
  have un: "set xs = set (take k srt) \<union> set (drop k srt)"
    using st by (metis append_take_drop_id set_append)
  show k1: "set kept = set (take k srt)"
  proof
    show "set kept \<subseteq> set (take k srt)"
      using un by (auto simp: kept_def drop_map)
    show "set (take k srt) \<subseteq> set kept"
      using un disj by (auto simp: kept_def drop_map)
  qed
  have "distinct xs" using assms(1) by (simp add: distinct_map)
  then have "distinct kept" by (simp add: kept_def)
  then have "length kept = card (set kept)" by (simp add: distinct_card)
  also have "\<dots> = card (set (take k srt))" using k1 by simp
  also have "\<dots> = length (take k srt)"
    using di by (intro distinct_card) (simp add: distinct_map)
  also have "\<dots> = k" using assms(2) by (simp add: srt_def)
  finally show "length kept = k" .
  have sorted: "sorted (map (\<lambda>s. - int (created_at s)) (take k srt @ drop k srt))"
    by (simp add: srt_def)
  have ord: "created_at b \<le> created_at a" if "a \<in> set (take k srt)" "b \<in> set (drop k srt)" for a b
    using sorted that unfolding map_append sorted_append by fastforce
  have "set xs - set kept \<subseteq> set (drop k srt)" using un k1 by auto
  with ord k1 show "\<forall>a\<in>set kept. \<forall>b\<in>set xs - set kept. created_at b \<le> created_at a"
    by blast
qed

lemma insert_chunks_ok:
  assumes "faults c = []"
    and "distinct (map sd_key (snapshot_data (db c) @ map (frozen_row sid) (drop i data)))"
  shows "insert_chunks sid data i c =
           (Ok (), c\<lparr>db := (db c)\<lparr>snapshot_data :=
              snapshot_data (db c) @ map (frozen_row sid) (drop i data)\<rparr>\<rparr>)"
  using assms
proof (induction sid data i c rule: insert_chunks.induct)
  case (1 sid data i c)
  show ?case
  proof (cases "i < length data")
    case False
    then show ?thesis by (simp add: insert_chunks.simps)
  next
    case True
    let ?chunk = "map (frozen_row sid) (take chunkSize (drop i data))"
    let ?rest = "map (frozen_row sid) (drop (i + chunkSize) data)"
    let ?c1 = "c\<lparr>db := (db c)\<lparr>snapshot_data := snapshot_data (db c) @ ?chunk\<rparr>\<rparr>"
    have sp: "map (frozen_row sid) (drop i data) = ?chunk @ ?rest"
      by (metis append_take_drop_id drop_drop map_append add.commute)
    have dc: "distinct (map sd_key (snapshot_data (db c) @ ?chunk))"
      using "1.prems"(2) unfolding sp by auto
    have step: "insert_snapshot_data ?chunk c = (Ok (), ?c1)"
      using "1.prems"(1) dc by (simp add: insert_snapshot_data_def next_fault_none)
    have f1: "faults ?c1 = []" using "1.prems"(1) by simp
    have d1: "distinct (map sd_key (snapshot_data (db ?c1) @ ?rest))"
      using "1.prems"(2) unfolding sp by auto
    have "insert_chunks sid data (i + chunkSize) ?c1 =
            (Ok (), ?c1\<lparr>db := (db ?c1)\<lparr>snapshot_data := snapshot_data (db ?c1) @ ?rest\<rparr>\<rparr>)"
      using "1.IH" [OF True step [symmetric] refl f1 d1] .
    then show ?thesis
      using True step sp by (subst insert_chunks.simps) simp
  qed
qed

lemma new_rowid_fresh:
  assumes "s \<in> set (snapshots d)"
  shows "snap_id s < new_rowid d"
proof -
  from assms obtain x xs where xs: "snapshots d = x # xs" by (cases "snapshots d") auto
  have "snap_id s \<le> Max (set (map snap_id (snapshots d)))" using assms by simp
  then show ?thesis by (simp add: new_rowid_def max_snapshot_id_def xs)
qed

lemma frozen_keys_distinct:
  assumes "distinct (map activity_key rows)"
  shows "distinct (map sd_key (map (frozen_row i) rows))"
proof -
  have "map sd_key (map (frozen_row i) rows) = map (\<lambda>r. (i, activity_key r)) rows"
    by (simp add: sd_key_def frozen_row_def activity_key_def)
  also have "distinct \<dots>" using assms by (simp add: distinct_map inj_on_def)
  finally show ?thesis .
qed

lemma sorted_activity_keys:
  assumes "distinct (map activity_key rows)"
  shows "distinct (map activity_key (sort_key (\<lambda>r. (user_id r, - message_count r)) rows))"
proof -
  have "mset (map activity_key (sort_key (\<lambda>r. (user_id r, - message_count r)) rows)) =
        mset (map activity_key rows)"
    by simp
  then show ?thesis using assms by (metis mset_eq_imp_distinct_iff)
qed

lemma wf_with_snapshot:
  assumes "wf_db d" "nm \<notin> set (map snap_name (snapshots d))"
  shows "wf_db (with_snapshot (new_rowid d) nm ts d)"
proof -
  let ?i = "new_rowid d"
  let ?rows = "sort_key (\<lambda>r. (user_id r, - message_count r)) (channel_activity d)"
  have fresh: "snap_id s < ?i" if "s \<in> set (snapshots d)" for s
    using that by (rule new_rowid_fresh)
  have old: "snapshot_id r \<noteq> ?i" if "r \<in> set (snapshot_data d)" for r
  proof -
    from assms(1) that obtain s where "s \<in> set (snapshots d)" "snap_id s = snapshot_id r"
      by (auto simp: wf_db_def list_all_iff)
    with fresh show ?thesis by fastforce
  qed
  have k1: "distinct (map sd_key (map (frozen_row ?i) ?rows))"
    using assms(1) by (intro frozen_keys_distinct sorted_activity_keys) (simp add: wf_db_def)
  have k2: "sd_key ` set (snapshot_data d) \<inter> sd_key ` set (map (frozen_row ?i) ?rows) = {}"
    using old by (auto simp: sd_key_def frozen_row_def)
  have w4: "distinct (map sd_key (snapshot_data d @ map (frozen_row ?i) ?rows))"
    using assms(1) k1 k2 unfolding map_append distinct_append set_map
    by (simp add: wf_db_def)
  have "?i \<notin> snap_id ` set (snapshots d)" using fresh by fastforce
  then have w2: "distinct (map snap_id (snapshots d @ [\<lparr>snap_id = ?i, snap_name = nm, created_at = ts\<rparr>]))"
    using assms(1) by (simp add: wf_db_def)
  have w3: "distinct (map snap_name (snapshots d @ [\<lparr>snap_id = ?i, snap_name = nm, created_at = ts\<rparr>]))"
    using assms by (auto simp: wf_db_def)
  have w5: "list_all (\<lambda>r. snapshot_id r \<in> set (map snap_id
              (snapshots d @ [\<lparr>snap_id = ?i, snap_name = nm, created_at = ts\<rparr>])))
            (snapshot_data d @ map (frozen_row ?i) ?rows)"
    using assms(1) by (auto simp: wf_db_def list_all_iff frozen_row_def)
  have w6: "list_all (\<lambda>s. snap_id s \<le> ?i)
              (snapshots d @ [\<lparr>snap_id = ?i, snap_name = nm, created_at = ts\<rparr>])"
    using fresh by (auto simp: list_all_iff less_imp_le)
  have w1: "distinct (map activity_key (channel_activity d))"
    using assms(1) by (simp add: wf_db_def)
  have w7: "list_all (\<lambda>s. 0 < snap_id s)
              (snapshots d @ [\<lparr>snap_id = ?i, snap_name = nm, created_at = ts\<rparr>])"
    using assms(1) by (simp add: wf_db_def new_rowid_def)
  show ?thesis
    unfolding wf_db_def with_snapshot_def
    using w1 w2 w3 w4 w5 w6 w7 by simp
qed

lemma createSnapshot_ok:
  assumes "faults c = []" "txn c = None" "wf_db (db c)" "channel_activity (db c) \<noteq> []"
    and "snapshot_name now \<notin> set (map snap_name (snapshots (db c)))"
  shows "createSnapshot now ts c =
           (Some \<lparr>res_id = new_rowid (db c), res_name = snapshot_name now,
                  res_count = length (channel_activity (db c))\<rparr>,
            c\<lparr>db := with_snapshot (new_rowid (db c)) (snapshot_name now) ts (db c)\<rparr>)"
proof -
  let ?nm = "snapshot_name now"
  let ?i = "new_rowid (db c)"
  let ?rows = "sort_key (\<lambda>r. (user_id r, - message_count r)) (channel_activity (db c))"
  let ?c1 = "c\<lparr>txn := Some (db c)\<rparr>"
  let ?d2 = "(db c)\<lparr>snapshots := snapshots (db c) @ [\<lparr>snap_id = ?i, snap_name = ?nm, created_at = ts\<rparr>],
                    sqlite_sequence := Some ?i\<rparr>"
  let ?c2 = "?c1\<lparr>db := ?d2\<rparr>"
  let ?c3 = "?c2\<lparr>db := (db ?c2)\<lparr>snapshot_data := snapshot_data (db ?c2) @ map (frozen_row ?i) (drop 0 ?rows)\<rparr>\<rparr>"
  have bt: "begin_transaction c = (Ok (), ?c1)"
    using assms(1,2) by (simp add: begin_transaction_def next_fault_none)
  have ins: "insert_snapshot ?nm ts ?c1 = (Ok ?i, ?c2)"
    using assms(1,5) by (simp add: insert_snapshot_def next_fault_none Let_def)
  have sel: "select_channel_activity ?c2 = (Ok ?rows, ?c2)"
    using assms(1) by (simp add: select_channel_activity_def next_fault_none)
  have ne: "length ?rows \<noteq> 0" using assms(4) by simp
  have "wf_db (with_snapshot ?i ?nm ts (db c))" using assms(3,5) by (rule wf_with_snapshot)
  then have "distinct (map sd_key (snapshot_data (db ?c2) @ map (frozen_row ?i) (drop 0 ?rows)))"
    by (simp add: wf_db_def with_snapshot_def)
  moreover have "faults ?c2 = []" using assms(1) by simp
  ultimately have ch: "insert_chunks ?i ?rows 0 ?c2 = (Ok (), ?c3)"
    by (rule insert_chunks_ok [rotated])
  have cm: "commit ?c3 = (Ok (), ?c3\<lparr>txn := None\<rparr>)"
    using assms(1) by (simp add: commit_def next_fault_none)
  have body: "createSnapshot_try ?nm ts ?c1 =
      (Ok (Some \<lparr>res_id = ?i, res_name = ?nm, res_count = length ?rows\<rparr>), ?c3\<lparr>txn := None\<rparr>)"
    using ins sel ne ch cm by (simp add: createSnapshot_try_def)
  have "?c3\<lparr>txn := None\<rparr> = c\<lparr>db := with_snapshot ?i ?nm ts (db c)\<rparr>"
    using assms(2) by (simp add: with_snapshot_def)
  with bt body show ?thesis by (simp add: createSnapshot_def)
qed

lemma createSnapshot_name_taken:
  assumes "faults c = []" "txn c = None"
    and "snapshot_name now \<in> set (map snap_name (snapshots (db c)))"
  shows "createSnapshot now ts c = (None, c)"
proof -
  let ?c1 = "c\<lparr>txn := Some (db c)\<rparr>"
  have bt: "begin_transaction c = (Ok (), ?c1)"
    using assms(1,2) by (simp add: begin_transaction_def next_fault_none)
  have ins: "insert_snapshot (snapshot_name now) ts ?c1 = (Throw ConstraintError, ?c1)"
    using assms(1,3) by (simp add: insert_snapshot_def next_fault_none)
  have rb: "rollback ?c1 = (Ok (), ?c1\<lparr>db := db c, txn := None\<rparr>)" by (simp add: rollback_def)
  have "?c1\<lparr>db := db c, txn := None\<rparr> = c" using assms(2) by simp
  with bt ins rb show ?thesis by (simp add: createSnapshot_def createSnapshot_try_def)
qed

lemma createSnapshot_no_activity:
  assumes "faults c = []" "txn c = None" "channel_activity (db c) = []"
  shows "createSnapshot now ts c = (None, c)"
proof (cases "snapshot_name now \<in> set (map snap_name (snapshots (db c)))")
  case True
  with assms show ?thesis by (simp add: createSnapshot_name_taken)
next
  case False
  let ?nm = "snapshot_name now"
  let ?i = "new_rowid (db c)"
  let ?c1 = "c\<lparr>txn := Some (db c)\<rparr>"
  let ?d2 = "(db c)\<lparr>snapshots := snapshots (db c) @ [\<lparr>snap_id = ?i, snap_name = ?nm, created_at = ts\<rparr>],
                    sqlite_sequence := Some ?i\<rparr>"
  let ?c2 = "?c1\<lparr>db := ?d2\<rparr>"
  have bt: "begin_transaction c = (Ok (), ?c1)"
    using assms(1,2) by (simp add: begin_transaction_def next_fault_none)
  have ins: "insert_snapshot ?nm ts ?c1 = (Ok ?i, ?c2)"
    using assms(1) False by (simp add: insert_snapshot_def next_fault_none Let_def)
  have sel: "select_channel_activity ?c2 = (Ok [], ?c2)"
    using assms(1,3) by (simp add: select_channel_activity_def next_fault_none)
  have rb: "rollback ?c2 = (Ok (), ?c2\<lparr>db := db c, txn := None\<rparr>)" by (simp add: rollback_def)
  have "?c2\<lparr>db := db c, txn := None\<rparr> = c" using assms(2) by simp
  with bt ins sel rb show ?thesis by (simp add: createSnapshot_def createSnapshot_try_def)
qed

section \<open>Retention\<close>

text \<open>
  C5. On well-formed tables, with no transaction open, no storage fault and a keep count
  \<open>k \<ge> 0\<close>: when no more than \<open>k\<close> snapshots exist \<open>cleanupOldSnapshots\<close> changes
  nothing; when \<open>n > k\<close> exist it leaves exactly \<open>k\<close> of them (so it deletes \<open>n - k\<close>),
  every snapshot it deletes is at most as recent by \<open>created_at\<close> as every snapshot it
  keeps, and \<open>snapshot_data\<close> keeps exactly the rows of the snapshots kept.
\<close>

theorem cleanup_keeps_newest:
  assumes "wf_db (db c)" "txn c = None" "faults c = []" "0 \<le> k"
  shows "(int (length (snapshots (db c))) \<le> k \<longrightarrow> cleanupOldSnapshots (Some k) c = c) \<and>
         (k < int (length (snapshots (db c))) \<longrightarrow>
            (let d' = db (cleanupOldSnapshots (Some k) c) in
             length (snapshots d') = nat k \<and>
             set (snapshots d') \<subseteq> set (snapshots (db c)) \<and>
             (\<forall>kept\<in>set (snapshots d'). \<forall>gone\<in>set (snapshots (db c)) - set (snapshots d').
                 created_at gone \<le> created_at kept) \<and>
             snapshot_data d' =
               filter (\<lambda>r. snapshot_id r \<in> snap_id ` set (snapshots d')) (snapshot_data (db c)) \<and>
             channel_activity d' = channel_activity (db c) \<and>
             sqlite_sequence d' = sqlite_sequence (db c)))"
proof (intro conjI impI)
  assume "int (length (snapshots (db c))) \<le> k"
  with assms(3) show "cleanupOldSnapshots (Some k) c = c" by (rule cleanup_noop)
next
  assume big: "k < int (length (snapshots (db c)))"
  let ?xs = "snapshots (db c)"
  let ?srt = "sort_key (\<lambda>s. - int (created_at s)) ?xs"
  let ?gone = "drop (nat k) (map snap_id ?srt)"
  let ?kept = "filter (\<lambda>s. snap_id s \<notin> set ?gone) ?xs"
  let ?d' = "db (cleanupOldSnapshots (Some k) c)"
  have eff: "?d' = without ?gone (db c)"
    using cleanup_effect [OF assms(3,2,4)] big by simp
  have sn: "snapshots ?d' = ?kept" by (simp add: eff without_def)
  have di: "distinct (map snap_id ?xs)" using assms(1) by (simp add: wf_db_def)
  have le: "nat k \<le> length ?xs" using big assms(4) by simp
  note nk = newest_kept [OF di le]
  have a: "length (snapshots ?d') = nat k" using nk(2) sn by simp
  have b: "set (snapshots ?d') \<subseteq> set ?xs" using sn by auto
  have c: "\<forall>kept\<in>set (snapshots ?d'). \<forall>gone\<in>set ?xs - set (snapshots ?d').
             created_at gone \<le> created_at kept"
    using nk(3) sn by simp
  have ref: "snapshot_id r \<in> snap_id ` set ?xs" if "r \<in> set (snapshot_data (db c))" for r
    using assms(1) that by (auto simp: wf_db_def list_all_iff)
  have "(snapshot_id r \<notin> set ?gone) = (snapshot_id r \<in> snap_id ` set ?kept)"
    if "r \<in> set (snapshot_data (db c))" for r
    using ref [OF that] by auto
  then have "filter (\<lambda>r. snapshot_id r \<notin> set ?gone) (snapshot_data (db c)) =
             filter (\<lambda>r. snapshot_id r \<in> snap_id ` set ?kept) (snapshot_data (db c))"
    by (intro filter_cong refl)
  then have d: "snapshot_data ?d' =
      filter (\<lambda>r. snapshot_id r \<in> snap_id ` set (snapshots ?d')) (snapshot_data (db c))"
    unfolding sn by (simp add: eff without_def)
  have e: "channel_activity ?d' = channel_activity (db c)"
          "sqlite_sequence ?d' = sqlite_sequence (db c)"
    by (simp_all add: eff without_def)
  show "let d' = ?d' in
          length (snapshots d') = nat k \<and>
          set (snapshots d') \<subseteq> set ?xs \<and>
          (\<forall>kept\<in>set (snapshots d'). \<forall>gone\<in>set ?xs - set (snapshots d').
              created_at gone \<le> created_at kept) \<and>
          snapshot_data d' =
            filter (\<lambda>r. snapshot_id r \<in> snap_id ` set (snapshots d')) (snapshot_data (db c)) \<and>
          channel_activity d' = channel_activity (db c) \<and>
          sqlite_sequence d' = sqlite_sequence (db c)"
    unfolding Let_def using a b c d e by blast
qed

theorem cleanup_keeps_newest_witness:
  "wf_db (db ex_five) \<and> txn ex_five = None \<and> faults ex_five = [] \<and>
   length (snapshots (db ex_five)) = 5 \<and>
   length (snapshots (db (cleanupOldSnapshots (Some 2) ex_five))) = 2 \<and>
   map snap_id (snapshots (db (cleanupOldSnapshots (Some 2) ex_five))) = [4, 5] \<and>
   map snapshot_id (snapshot_data (db (cleanupOldSnapshots (Some 2) ex_five))) = [5] \<and>
   cleanupOldSnapshots (Some 5) ex_five = ex_five"
proof -
  have h1: "wf_db (db ex_five)" by code_simp
  have h2: "txn ex_five = None" by (simp add: ex_five_def)
  have h3: "faults ex_five = []" by (simp add: ex_five_def)
  have n: "length (snapshots (db ex_five)) = 5" by (simp add: ex_five_def)
  have ids: "map snap_id (snapshots (db (cleanupOldSnapshots (Some 2) ex_five))) = [4, 5]"
    by code_simp
  have dat: "map snapshot_id (snapshot_data (db (cleanupOldSnapshots (Some 2) ex_five))) = [5]"
    by code_simp
  from cleanup_keeps_newest [OF h1 h2 h3, of 2] n
  have a: "length (snapshots (db (cleanupOldSnapshots (Some 2) ex_five))) = 2"
    by (simp add: Let_def)
  from cleanup_keeps_newest [OF h1 h2 h3, of 5] n
  have b: "cleanupOldSnapshots (Some 5) ex_five = ex_five" by simp
  from h1 h2 h3 n ids dat a b show ?thesis by simp
qed

section \<open>Deletion and the id sequence\<close>

lemma find_by_id:
  assumes "i \<in> snap_id ` set xs"
  shows "\<exists>s. find (\<lambda>s. snap_id s = i) xs = Some s"
  using assms by (cases "find (\<lambda>s. snap_id s = i) xs") (auto simp: find_None_iff)

lemma delete_route_ok:
  assumes "faults c = []" "txn c = None" "i \<in> snap_id ` set (snapshots (db c))"
  defines "isLast \<equiv> (max_snapshot_id (db c) = Some i)"
  shows "fst (delete_snapshot_route i c) = DeleteOk i isLast \<and>
         db (snd (delete_snapshot_route i c)) =
           (without [i] (db c))\<lparr>sqlite_sequence :=
              (if isLast then
                 (case sqlite_sequence (db c) of
                    None \<Rightarrow> None
                  | Some q \<Rightarrow> Some (or_zero (max_snapshot_id (without [i] (db c)))))
               else sqlite_sequence (db c))\<rparr> \<and>
         txn (snd (delete_snapshot_route i c)) = None \<and>
         faults (snd (delete_snapshot_route i c)) = []"
proof -
  obtain s where f: "find (\<lambda>s. snap_id s = i) (snapshots (db c)) = Some s"
    using find_by_id [OF assms(3)] by blast
  let ?c3 = "c\<lparr>txn := Some (db c)\<rparr>"
  let ?c4 = "?c3\<lparr>db := (db ?c3)\<lparr>snapshot_data :=
              filter (\<lambda>r. snapshot_id r \<noteq> i) (snapshot_data (db ?c3))\<rparr>\<rparr>"
  let ?c5 = "?c4\<lparr>db := (db ?c4)\<lparr>snapshots :=
              filter (\<lambda>s. snap_id s \<noteq> i) (snapshots (db ?c4))\<rparr>\<rparr>"
  have s1: "select_snapshot_by_id i c = (Ok (Some s), c)"
    using assms(1) f by (simp add: select_snapshot_by_id_def next_fault_none)
  have s2: "select_max_id c = (Ok (max_snapshot_id (db c)), c)"
    using assms(1) by (simp add: select_max_id_def next_fault_none)
  have bt: "begin_transaction c = (Ok (), ?c3)"
    using assms(1,2) by (simp add: begin_transaction_def next_fault_none)
  have d1: "delete_snapshot_data i ?c3 = (Ok (), ?c4)"
    using assms(1) by (simp add: delete_snapshot_data_def next_fault_none)
  have d2: "delete_snapshot_row i ?c4 = (Ok (), ?c5)"
    using assms(1) by (simp add: delete_snapshot_row_def next_fault_none)
  have w: "db ?c5 = without [i] (db c)" by (simp add: without_def)
  show ?thesis
  proof (cases isLast)
    case False
    have cm: "commit ?c5 = (Ok (), ?c5\<lparr>txn := None\<rparr>)"
      using assms(1) by (simp add: commit_def next_fault_none)
    have "delete_try i False ?c3 = (Ok (), ?c5\<lparr>txn := None\<rparr>)"
      using d1 d2 cm by (simp add: delete_try_def)
    with s1 s2 bt False have "delete_snapshot_route i c = (DeleteOk i False, ?c5\<lparr>txn := None\<rparr>)"
      by (simp add: delete_snapshot_route_def isLast_def)
    with False assms(1) show ?thesis by (simp add: without_def)
  next
    case True
    let ?v = "or_zero (max_snapshot_id (without [i] (db c)))"
    let ?c6 = "?c5\<lparr>db := (db ?c5)\<lparr>sqlite_sequence :=
                (case sqlite_sequence (db ?c5) of None \<Rightarrow> None | Some q \<Rightarrow> Some ?v)\<rparr>\<rparr>"
    have "select_max_id ?c5 = (Ok (max_snapshot_id (db ?c5)), ?c5)"
      using assms(1) by (simp add: select_max_id_def next_fault_none)
    then have m: "select_max_id ?c5 = (Ok (max_snapshot_id (without [i] (db c))), ?c5)"
      unfolding w .
    have u: "update_sequence ?v ?c5 = (Ok (), ?c6)"
      using assms(1) by (simp add: update_sequence_def next_fault_none)
    have cm: "commit ?c6 = (Ok (), ?c6\<lparr>txn := None\<rparr>)"
      using assms(1) by (simp add: commit_def next_fault_none)
    have "delete_try i True ?c3 = (Ok (), ?c6\<lparr>txn := None\<rparr>)"
      using d1 d2 m u cm by (simp add: delete_try_def or_zero_def)
    with s1 s2 bt True have "delete_snapshot_route i c = (DeleteOk i True, ?c6\<lparr>txn := None\<rparr>)"
      by (simp add: delete_snapshot_route_def isLast_def)
    with True assms(1) show ?thesis by (simp add: without_def)
  qed
qed

lemma createSnapshot_id:
  assumes "createSnapshot now ts c = (Some r, c')"
  shows "res_id r = new_rowid (db c)"
proof -
  obtain u c1 where bt: "begin_transaction c = (Ok u, c1)"
    using assms by (auto simp: createSnapshot_def split: prod.splits outcome.splits)
  have body: "createSnapshot_try (snapshot_name now) ts c1 = (Ok (Some r), c')"
    using assms bt
    by (auto simp: createSnapshot_def split: prod.splits outcome.splits)
  then obtain i c2 where ins: "insert_snapshot (snapshot_name now) ts c1 = (Ok i, c2)"
    by (auto simp: createSnapshot_try_def split: prod.splits outcome.splits)
  from body ins have "res_id r = i"
    by (auto simp: createSnapshot_try_def split: prod.splits outcome.splits if_splits)
  with insert_snapshot_Ok [OF ins] begin_transaction_Ok [OF bt] show ?thesis by simp
qed

lemma max_snapshot_id_Some:
  assumes "max_snapshot_id d = Some m"
  shows "m \<in> snap_id ` set (snapshots d) \<and> (\<forall>s\<in>set (snapshots d). snap_id s \<le> m)"
proof -
  from assms obtain x xs where xs: "snapshots d = x # xs"
    by (cases "snapshots d") (auto simp: max_snapshot_id_def)
  with assms have m: "m = Max (set (map snap_id (snapshots d)))"
    by (simp add: max_snapshot_id_def)
  have "Max (set (map snap_id (snapshots d))) \<in> set (map snap_id (snapshots d))"
    by (rule Max_in) (simp_all add: xs)
  moreover have "snap_id s \<le> Max (set (map snap_id (snapshots d)))"
    if "s \<in> set (snapshots d)" for s
    using that by simp
  ultimately show ?thesis using m by auto
qed

lemma or_zero_max_le:
  assumes "\<forall>s\<in>set (snapshots d). snap_id s \<le> q"
  shows "or_zero (max_snapshot_id d) \<le> q"
proof (cases "max_snapshot_id d")
  case None
  then show ?thesis by (simp add: or_zero_def)
next
  case (Some m)
  from max_snapshot_id_Some [OF Some] assms have "m \<le> q" by auto
  then show ?thesis by (simp add: or_zero_def Some)
qed

lemma max_snapshot_id_cong:
  "snapshots d = snapshots d' \<Longrightarrow> max_snapshot_id d = max_snapshot_id d'"
  by (simp add: max_snapshot_id_def)

text \<open>
  C1 (amended). On well-formed tables, with no transaction open and no storage fault,
  the delete route removes the snapshot \<open>i\<close>. If \<open>i\<close> was the maximum id, it answers
  \<open>autoIncrementReset = true\<close> and sets the sequence row to the maximum remaining id, or
  to zero when no snapshot remains; the next snapshot then takes that maximum plus one,
  which is at most \<open>i\<close>, and is \<open>i\<close> itself exactly when \<open>i\<close> was one above the largest
  remaining id. If \<open>i\<close> was not the maximum, it answers \<open>autoIncrementReset = false\<close>
  and leaves the sequence row and the next id as they were. Whatever \<open>createSnapshot\<close>
  returns afterwards carries that next id. With ids 1, 2, 3: after deleting 3 the next
  snapshot has id 3, after deleting 2 it has id 4.
\<close>

theorem delete_resets_watermark:
  assumes "wf_db (db c)" "txn c = None" "faults c = []"
    and "i \<in> snap_id ` set (snapshots (db c))"
  shows "let c' = snd (delete_snapshot_route i c);
             m' = or_zero (max_snapshot_id (db c'))
         in snapshots (db c') = filter (\<lambda>s. snap_id s \<noteq> i) (snapshots (db c)) \<and>
            (max_snapshot_id (db c) = Some i \<longrightarrow>
               fst (delete_snapshot_route i c) = DeleteOk i True \<and>
               sqlite_sequence (db c') = Some m' \<and>
               new_rowid (db c') = m' + 1 \<and> m' + 1 \<le> i) \<and>
            (max_snapshot_id (db c) \<noteq> Some i \<longrightarrow>
               fst (delete_snapshot_route i c) = DeleteOk i False \<and>
               sqlite_sequence (db c') = sqlite_sequence (db c) \<and>
               new_rowid (db c') = new_rowid (db c)) \<and>
            (\<forall>now ts r c''. createSnapshot now ts c' = (Some r, c'') \<longrightarrow>
               res_id r = new_rowid (db c'))"
proof -
  let ?c' = "snd (delete_snapshot_route i c)"
  let ?m' = "or_zero (max_snapshot_id (db ?c'))"
  let ?rest = "filter (\<lambda>s. snap_id s \<noteq> i) (snapshots (db c))"
  note ok = delete_route_ok [OF assms(3,2,4)]
  have sn: "snapshots (db ?c') = ?rest" using ok by (simp add: without_def)
  have mx: "max_snapshot_id (db ?c') = max_snapshot_id (without [i] (db c))"
    by (rule max_snapshot_id_cong) (simp add: sn without_def)
  obtain q where q: "sqlite_sequence (db c) = Some q"
    and qb: "\<forall>s\<in>set (snapshots (db c)). snap_id s \<le> q"
    using assms(1,4) by (cases "sqlite_sequence (db c)") (auto simp: wf_db_def list_all_iff)
  have ipos: "0 < i" using assms(1,4) by (auto simp: wf_db_def list_all_iff)
  have last: "fst (delete_snapshot_route i c) = DeleteOk i True \<and>
              sqlite_sequence (db ?c') = Some ?m' \<and>
              new_rowid (db ?c') = ?m' + 1 \<and> ?m' + 1 \<le> i"
    if top: "max_snapshot_id (db c) = Some i"
  proof -
    have a: "fst (delete_snapshot_route i c) = DeleteOk i True" using ok top by simp
    have b: "sqlite_sequence (db ?c') = Some ?m'" using ok top q mx by simp
    have c: "new_rowid (db ?c') = ?m' + 1"
      unfolding new_rowid_def b by (simp add: or_zero_def)
    have below: "snap_id s < i" if "s \<in> set ?rest" for s
      using that max_snapshot_id_Some [OF top] by fastforce
    have "?m' < i"
    proof (cases "max_snapshot_id (db ?c')")
      case None
      with ipos show ?thesis by (simp add: or_zero_def)
    next
      case (Some m)
      from max_snapshot_id_Some [OF Some] sn below have "m < i" by auto
      then show ?thesis by (simp add: Some or_zero_def)
    qed
    with a b c show ?thesis by simp
  qed
  have other: "fst (delete_snapshot_route i c) = DeleteOk i False \<and>
               sqlite_sequence (db ?c') = sqlite_sequence (db c) \<and>
               new_rowid (db ?c') = new_rowid (db c)"
    if nt: "max_snapshot_id (db c) \<noteq> Some i"
  proof -
    have a: "fst (delete_snapshot_route i c) = DeleteOk i False" using ok nt by simp
    have b: "sqlite_sequence (db ?c') = sqlite_sequence (db c)" using ok nt by simp
    have "\<forall>s\<in>set (snapshots (db ?c')). snap_id s \<le> q" using qb sn by simp
    then have "or_zero (max_snapshot_id (db ?c')) \<le> q" by (rule or_zero_max_le)
    moreover have "or_zero (max_snapshot_id (db c)) \<le> q" using qb by (rule or_zero_max_le)
    ultimately have "new_rowid (db ?c') = new_rowid (db c)"
      unfolding new_rowid_def b q by (simp add: or_zero_def max_def)
    with a b show ?thesis by simp
  qed
  have nxt: "\<forall>now ts r c''. createSnapshot now ts ?c' = (Some r, c'') \<longrightarrow>
               res_id r = new_rowid (db ?c')"
    using createSnapshot_id by blast
  show ?thesis unfolding Let_def using sn last other nxt by blast
qed

theorem delete_resets_watermark_witness:
  "wf_db (db ex_three) \<and> txn ex_three = None \<and> faults ex_three = [] \<and>
   map snap_id (snapshots (db ex_three)) = [1, 2, 3] \<and>
   fst (delete_snapshot_route 3 ex_three) = DeleteOk 3 True \<and>
   new_rowid (db (snd (delete_snapshot_route 3 ex_three))) = 3 \<and>
   map_option res_id (fst (createSnapshot ex_date 60 (snd (delete_snapshot_route 3 ex_three))))
     = Some 3 \<and>
   fst (delete_snapshot_route 2 ex_three) = DeleteOk 2 False \<and>
   new_rowid (db (snd (delete_snapshot_route 2 ex_three))) = 4 \<and>
   map_option res_id (fst (createSnapshot ex_date 60 (snd (delete_snapshot_route 2 ex_three))))
     = Some 4"
proof -
  have h1: "wf_db (db ex_three)" by code_simp
  have h2: "txn ex_three = None" by code_simp
  have h3: "faults ex_three = []" by code_simp
  have ids: "map snap_id (snapshots (db ex_three)) = [1, 2, 3]" by code_simp
  have i3: "3 \<in> snap_id ` set (snapshots (db ex_three))"
    and i2: "2 \<in> snap_id ` set (snapshots (db ex_three))"
    by (simp_all add: ex_three_def)
  have top: "max_snapshot_id (db ex_three) = Some 3" by code_simp
  have m3: "or_zero (max_snapshot_id (db (snd (delete_snapshot_route 3 ex_three)))) = 2"
    by code_simp
  have n0: "new_rowid (db ex_three) = 4" by code_simp
  have r3: "map_option res_id
              (fst (createSnapshot ex_date 60 (snd (delete_snapshot_route 3 ex_three)))) = Some 3"
    by code_simp
  have r2: "map_option res_id
              (fst (createSnapshot ex_date 60 (snd (delete_snapshot_route 2 ex_three)))) = Some 4"
    by code_simp
  from delete_resets_watermark [OF h1 h2 h3 i3] top m3
  have a: "fst (delete_snapshot_route 3 ex_three) = DeleteOk 3 True \<and>
           new_rowid (db (snd (delete_snapshot_route 3 ex_three))) = 3"
    by (simp add: Let_def)
  from delete_resets_watermark [OF h1 h2 h3 i2] top n0
  have b: "fst (delete_snapshot_route 2 ex_three) = DeleteOk 2 False \<and>
           new_rowid (db (snd (delete_snapshot_route 2 ex_three))) = 4"
    by (simp add: Let_def)
  from h1 h2 h3 ids a b r3 r2 show ?thesis by simp
qed

text \<open>
  C1 as stated fails: with ids 1 and 3 (the state after snapshot 2 of 1, 2, 3 was deleted),
  deleting the maximum id 3 resets the sequence row to 1, and the next snapshot takes id 2,
  not the freed id 3.
\<close>

theorem delete_max_reuses_freed_id_counterexample:
  "db (snd (delete_snapshot_route 2 ex_three)) = db ex_gap \<and>
   map snap_id (snapshots (db ex_gap)) = [1, 3] \<and>
   max_snapshot_id (db ex_gap) = Some 3 \<and>
   fst (delete_snapshot_route 3 ex_gap) = DeleteOk 3 True \<and>
   sqlite_sequence (db (snd (delete_snapshot_route 3 ex_gap))) = Some 1 \<and>
   map_option res_id (fst (createSnapshot ex_date 60 (snd (delete_snapshot_route 3 ex_gap))))
     = Some 2"
  by code_simp

section \<open>\<open>processMessage\<close> counts every qualifying message once\<close>

lemma upsert_rows_keys:
  "map activity_key (upsert_rows new rows) =
     (if activity_key new \<in> set (map activity_key rows) then map activity_key rows
      else map activity_key rows @ [activity_key new])"
  by (induction rows) (auto simp: activity_key_def)

lemma upsert_rows_distinct:
  "distinct (map activity_key rows) \<Longrightarrow> distinct (map activity_key (upsert_rows new rows))"
  by (simp add: upsert_rows_keys)

lemma upsert_rows_other:
  assumes "\<not> for_identity u ch new"
  shows "filter (for_identity u ch) (upsert_rows new rows) = filter (for_identity u ch) rows"
  using assms by (induction rows) (auto simp: for_identity_def)

lemma upsert_rows_absent:
  assumes "filter (for_identity (user_id new) (channel_id new)) rows = []"
  shows "filter (for_identity (user_id new) (channel_id new)) (upsert_rows new rows) = [new]"
  using assms by (induction rows) (auto simp: for_identity_def split: if_splits)

lemma upsert_rows_present:
  assumes "filter (for_identity (user_id new) (channel_id new)) rows = [r]"
  shows "filter (for_identity (user_id new) (channel_id new)) (upsert_rows new rows) =
           [r\<lparr>username := username new, roles := roles new, channel_name := channel_name new,
              message_count := message_count r + 1, last_message := last_message new\<rparr>]"
  using assms
proof (induction rows)
  case Nil
  then show ?case by simp
next
  case (Cons x rows)
  let ?upd = "\<lambda>y. y\<lparr>username := username new, roles := roles new,
                      channel_name := channel_name new,
                      message_count := message_count y + 1, last_message := last_message new\<rparr>"
  show ?case
  proof (cases "for_identity (user_id new) (channel_id new) x")
    case True
    with Cons.prems have xr: "x = r"
      and none: "filter (for_identity (user_id new) (channel_id new)) rows = []"
      by simp_all
    have c: "user_id x = user_id new \<and> channel_id x = channel_id new"
      using True by (simp add: for_identity_def)
    then have u: "upsert_rows new (x # rows) = ?upd x # rows" by simp
    have fu: "for_identity (user_id new) (channel_id new) (?upd x)"
      using c by (simp add: for_identity_def)
    show ?thesis unfolding u using fu none xr by simp
  next
    case False
    then have c: "\<not> (user_id x = user_id new \<and> channel_id x = channel_id new)"
      by (simp add: for_identity_def)
    have u: "upsert_rows new (x # rows) = x # upsert_rows new rows" using c by auto
    from False Cons.prems have "filter (for_identity (user_id new) (channel_id new)) rows = [r]"
      by simp
    from Cons.IH [OF this] False show ?thesis unfolding u by simp
  qed
qed

lemma upsert_activity_ok:
  assumes "faults c = []"
  shows "upsert_activity u n rs ch cn ts c =
           (Ok (), c\<lparr>db := (db c)\<lparr>channel_activity :=
              upsert_rows \<lparr>user_id = u, username = n, roles = rs, channel_id = ch,
                           channel_name = cn, message_count = 1, last_message = ts\<rparr>
                (channel_activity (db c))\<rparr>\<rparr>)"
  using assms by (simp add: upsert_activity_def next_fault_none)

lemma processMessage_skip:
  "\<not> qualifies m \<Longrightarrow> processMessage ts m c = c"
  by (auto simp: processMessage_def qualifies_def hasTargetRole_def Let_def)

lemma processMessage_statement:
  "qualifies m \<Longrightarrow>
   processMessage ts m c =
     snd (upsert_activity (author_id m) (author_tag m) (getUserRoles (resolved_member m))
            (msg_channel_id m) (msg_channel_name m) ts c)"
  by (auto simp: processMessage_def qualifies_def hasTargetRole_def Let_def
      split: prod.splits outcome.splits)

lemma processMessage_ok:
  assumes "faults c = []" "qualifies m"
  shows "processMessage ts m c =
           c\<lparr>db := (db c)\<lparr>channel_activity :=
                upsert_rows (new_row ts m) (channel_activity (db c))\<rparr>\<rparr>"
  using assms by (simp add: processMessage_statement upsert_activity_ok new_row_def)

lemma process_all_snoc:
  "process_all (ms @ [(ts, m)]) c = processMessage ts m (process_all ms c)"
  by (induction ms arbitrary: c) auto

lemma process_all_faults:
  "faults c = [] \<Longrightarrow> faults (process_all ms c) = []"
proof (induction ms arbitrary: c)
  case Nil
  then show ?case by simp
next
  case (Cons x ms)
  obtain ts m where x: "x = (ts, m)" by (cases x)
  have "faults (processMessage ts m c) = []"
    using Cons.prems
    by (cases "qualifies m") (simp_all add: processMessage_skip processMessage_ok)
  with Cons.IH x show ?case by simp
qed

lemma calls_for_last:
  assumes "calls_for u ch ms \<noteq> []"
  shows "qualifies (snd (last (calls_for u ch ms))) \<and>
         author_id (snd (last (calls_for u ch ms))) = u \<and>
         msg_channel_id (snd (last (calls_for u ch ms))) = ch"
proof -
  have "last (calls_for u ch ms) \<in> set (calls_for u ch ms)" using assms by simp
  then show ?thesis by (auto simp: calls_for_def)
qed

lemma process_all_identity:
  assumes "faults c = []"
    and "filter (for_identity u ch) (channel_activity (db c)) = []"
  shows "filter (for_identity u ch) (channel_activity (db (process_all ms c))) =
           (if calls_for u ch ms = [] then []
            else [(new_row (fst (last (calls_for u ch ms))) (snd (last (calls_for u ch ms))))
                    \<lparr>message_count := int (length (calls_for u ch ms))\<rparr>])"
proof (induction ms rule: rev_induct)
  case Nil
  show ?case using assms(2) by (simp add: calls_for_def)
next
  case (snoc x ms)
  obtain ts m where x: "x = (ts, m)" by (cases x)
  let ?s = "process_all ms c"
  let ?calls = "calls_for u ch ms"
  have fs: "faults ?s = []" using assms(1) by (rule process_all_faults)
  have step: "process_all (ms @ [x]) c = processMessage ts m ?s"
    unfolding x by (rule process_all_snoc)
  show ?case
  proof (cases "qualifies m")
    case False
    then have "calls_for u ch (ms @ [x]) = ?calls" by (simp add: calls_for_def x)
    with False snoc.IH step show ?thesis by (simp add: processMessage_skip)
  next
    case True
    have pm: "channel_activity (db (processMessage ts m ?s)) =
                upsert_rows (new_row ts m) (channel_activity (db ?s))"
      using fs True by (simp add: processMessage_ok)
    show ?thesis
    proof (cases "author_id m = u \<and> msg_channel_id m = ch")
      case False
      then have c: "calls_for u ch (ms @ [x]) = ?calls" by (auto simp: calls_for_def x)
      have "\<not> for_identity u ch (new_row ts m)"
        using False by (simp add: for_identity_def new_row_def)
      then have "filter (for_identity u ch) (channel_activity (db (processMessage ts m ?s))) =
                 filter (for_identity u ch) (channel_activity (db ?s))"
        unfolding pm by (rule upsert_rows_other)
      with snoc.IH step c show ?thesis by simp
    next
      case same: True
      then have c: "calls_for u ch (ms @ [x]) = ?calls @ [(ts, m)]"
        using True by (simp add: calls_for_def x)
      have ids: "user_id (new_row ts m) = u" "channel_id (new_row ts m) = ch"
        using same by (simp_all add: new_row_def)
      show ?thesis
      proof (cases "?calls = []")
        case True
        with snoc.IH have "filter (for_identity (user_id (new_row ts m)) (channel_id (new_row ts m)))
                             (channel_activity (db ?s)) = []"
          by (simp add: ids)
        then have "filter (for_identity u ch) (channel_activity (db (processMessage ts m ?s))) =
                     [new_row ts m]"
          unfolding pm using upsert_rows_absent [of "new_row ts m"] by (simp add: ids)
        moreover have "new_row ts m = (new_row ts m)\<lparr>message_count := int 1\<rparr>"
          by (simp add: new_row_def)
        ultimately show ?thesis using step c True by simp
      next
        case False
        let ?r = "(new_row (fst (last ?calls)) (snd (last ?calls)))
                    \<lparr>message_count := int (length ?calls)\<rparr>"
        from False snoc.IH have "filter (for_identity (user_id (new_row ts m)) (channel_id (new_row ts m)))
                             (channel_activity (db ?s)) = [?r]"
          by (simp add: ids)
        from upsert_rows_present [OF this]
        have "filter (for_identity u ch) (channel_activity (db (processMessage ts m ?s))) =
                [?r\<lparr>username := username (new_row ts m), roles := roles (new_row ts m),
                    channel_name := channel_name (new_row ts m),
                    message_count := message_count ?r + 1,
                    last_message := last_message (new_row ts m)\<rparr>]"
          unfolding pm by (simp add: ids)
        moreover have "?r\<lparr>username := username (new_row ts m), roles := roles (new_row ts m),
                    channel_name := channel_name (new_row ts m),
                    message_count := message_count ?r + 1,
                    last_message := last_message (new_row ts m)\<rparr> =
                (new_row ts m)\<lparr>message_count := int (length (?calls @ [(ts, m)]))\<rparr>"
          using calls_for_last [OF False] same by (simp add: new_row_def)
        ultimately show ?thesis using step c by simp
      qed
    qed
  qed
qed

text \<open>
  C2. Start from a store without a row for the identity \<open>(u, ch)\<close> and run
  \<open>processMessage\<close> over any sequence of messages without storage fault. If \<open>N \<ge> 1\<close> of
  them qualify and carry that identity, the store ends with exactly one row for
  \<open>(u, ch)\<close>; its \<open>message_count\<close> is \<open>N\<close>, and its username, roles, channel name and
  \<open>last_message\<close> are those of the last such message. A qualifying message is handled by
  the single upsert statement and nothing else; any other message changes nothing.
\<close>

theorem recordMessage_counts:
  assumes "faults c = []"
    and "filter (for_identity u ch) (channel_activity (db c)) = []"
    and "calls_for u ch ms \<noteq> []"
  shows "(let calls = calls_for u ch ms; (ts, m) = last calls
          in filter (for_identity u ch) (channel_activity (db (process_all ms c))) =
               [\<lparr>user_id = u, username = author_tag m,
                 roles = getUserRoles (resolved_member m), channel_id = ch,
                 channel_name = msg_channel_name m,
                 message_count = int (length calls), last_message = ts\<rparr>]) \<and>
         (qualifies m' \<longrightarrow>
            processMessage ts' m' c' =
              snd (upsert_activity (author_id m') (author_tag m')
                     (getUserRoles (resolved_member m')) (msg_channel_id m')
                     (msg_channel_name m') ts' c')) \<and>
         (\<not> qualifies m' \<longrightarrow> processMessage ts' m' c' = c')"
proof -
  have "filter (for_identity u ch) (channel_activity (db (process_all ms c))) =
          [(new_row (fst (last (calls_for u ch ms))) (snd (last (calls_for u ch ms))))
              \<lparr>message_count := int (length (calls_for u ch ms))\<rparr>]"
    using process_all_identity [OF assms(1,2), of ms] assms(3) by simp
  then have 1: "let calls = calls_for u ch ms; (ts, m) = last calls
          in filter (for_identity u ch) (channel_activity (db (process_all ms c))) =
               [\<lparr>user_id = u, username = author_tag m,
                 roles = getUserRoles (resolved_member m), channel_id = ch,
                 channel_name = msg_channel_name m,
                 message_count = int (length calls), last_message = ts\<rparr>]"
    using calls_for_last [OF assms(3)]
    by (simp add: Let_def new_row_def split: prod.splits)
  show ?thesis
    using 1 processMessage_statement [of m' ts' c'] processMessage_skip [of m' ts' c']
    by blast
qed

theorem recordMessage_counts_witness:
  "faults ex_idle = [] \<and>
   filter (for_identity ''u7'' ''c9'') (channel_activity (db ex_idle)) = [] \<and>
   calls_for ''u7'' ''c9'' ex_messages = [(1, ex_msg_a), (4, ex_msg_b)] \<and>
   filter (for_identity ''u7'' ''c9'') (channel_activity (db (process_all ex_messages ex_idle))) =
     [\<lparr>user_id = ''u7'', username = ''ann#2'', roles = ''Proofer, Helper'',
       channel_id = ''c9'', channel_name = ''chat'', message_count = 2, last_message = 4\<rparr>] \<and>
   qualifies ex_msg_a \<and> \<not> qualifies ex_msg_bot"
proof -
  have h1: "faults ex_idle = []" by code_simp
  have h2: "filter (for_identity ''u7'' ''c9'') (channel_activity (db ex_idle)) = []"
    by code_simp
  have cs: "calls_for ''u7'' ''c9'' ex_messages = [(1, ex_msg_a), (4, ex_msg_b)]"
    by code_simp
  then have h3: "calls_for ''u7'' ''c9'' ex_messages \<noteq> []" by simp
  have f: "author_tag ex_msg_b = ''ann#2''" "msg_channel_name ex_msg_b = ''chat''"
    "getUserRoles (resolved_member ex_msg_b) = ''Proofer, Helper''"
    by code_simp+
  have q: "qualifies ex_msg_a" "\<not> qualifies ex_msg_bot" by code_simp+
  from recordMessage_counts [OF h1 h2 h3, of ex_msg_a 0 ex_idle]
  have "filter (for_identity ''u7'' ''c9'')
          (channel_activity (db (process_all ex_messages ex_idle))) =
     [\<lparr>user_id = ''u7'', username = ''ann#2'', roles = ''Proofer, Helper'',
       channel_id = ''c9'', channel_name = ''chat'', message_count = 2, last_message = 4\<rparr>]"
    unfolding cs by (simp add: f)
  with h1 h2 cs q show ?thesis by simp
qed

section \<open>Snapshot names\<close>

lemma length_pad [simp]: "length (pad k n) = k"
  by (induction k arbitrary: n) auto

lemma digit_char_code: "of_char (digit_char n) = (48 + n mod 10 :: nat)"
  by (simp add: digit_char_def)

lemma digit_char_eq: "digit_char a = digit_char b \<longleftrightarrow> a mod 10 = b mod 10"
proof
  assume "digit_char a = digit_char b"
  then have "(of_char (digit_char a) :: nat) = of_char (digit_char b)" by simp
  then show "a mod 10 = b mod 10" by (simp add: digit_char_code)
next
  assume "a mod 10 = b mod 10"
  then show "digit_char a = digit_char b" by (simp add: digit_char_def)
qed

lemma digit_char_less: "digit_char a < digit_char b \<longleftrightarrow> a mod 10 < b mod 10"
  by (simp add: less_char_def digit_char_code)

lemma digit_char_plain: "digit_char n \<noteq> CHR '':'' \<and> digit_char n \<noteq> CHR ''.''"
proof -
  have "(of_char (digit_char n) :: nat) \<noteq> of_char CHR '':''"
    and "(of_char (digit_char n) :: nat) \<noteq> of_char CHR ''.''"
    unfolding digit_char_code by simp_all
  then show ?thesis by auto
qed

lemma replace_pad [simp]: "replace_colon_dot (pad k n) = pad k n"
  by (induction k arbitrary: n) (simp_all add: replace_colon_dot_def digit_char_plain)

lemma replace_Cons [simp]:
  "replace_colon_dot (ch # s) =
     (if ch = CHR '':'' \<or> ch = CHR ''.'' then CHR ''-'' else ch) # replace_colon_dot s"
  by (simp add: replace_colon_dot_def)

lemma replace_Nil [simp]: "replace_colon_dot [] = []"
  by (simp add: replace_colon_dot_def)

lemma replace_append [simp]:
  "replace_colon_dot (xs @ ys) = replace_colon_dot xs @ replace_colon_dot ys"
  by (simp add: replace_colon_dot_def)

lemma append_less_same_length:
  fixes xs ys :: string
  assumes "length xs = length ys"
  shows "xs @ a < ys @ b \<longleftrightarrow> xs < ys \<or> (xs = ys \<and> a < b)"
  using assms by (induction xs ys rule: list_induct2) auto

lemma div_mod_eq_10:
  "(n div 10 = m div 10 \<and> n mod 10 = m mod 10) \<longleftrightarrow> n = (m::nat)"
  by (metis div_mult_mod_eq)

lemma div_mod_less_10:
  "(n div 10 < m div 10 \<or> (n div 10 = m div 10 \<and> n mod 10 < m mod 10)) \<longleftrightarrow> n < (m::nat)"
proof -
  define a b c d where "a = n div 10" and "b = n mod 10" and "c = m div 10" and "d = m mod 10"
  have "n = 10 * a + b" "m = 10 * c + d" "b < 10" "d < 10"
    by (simp_all add: a_def b_def c_def d_def)
  then have "(a < c \<or> (a = c \<and> b < d)) \<longleftrightarrow> n < m" by auto
  then show ?thesis by (simp only: a_def b_def c_def d_def)
qed

lemma pad_eq:
  assumes "n < 10 ^ k" "m < 10 ^ k"
  shows "pad k n = pad k m \<longleftrightarrow> n = m"
  using assms
proof (induction k arbitrary: n m)
  case 0
  then show ?case by simp
next
  case (Suc k)
  have d: "n div 10 < 10 ^ k" "m div 10 < 10 ^ k" using Suc.prems by auto
  have "pad (Suc k) n = pad (Suc k) m \<longleftrightarrow>
        pad k (n div 10) = pad k (m div 10) \<and> digit_char n = digit_char m"
    by simp
  also have "\<dots> \<longleftrightarrow> n div 10 = m div 10 \<and> n mod 10 = m mod 10"
    using Suc.IH [OF d] by (simp add: digit_char_eq)
  also have "\<dots> \<longleftrightarrow> n = m" by (rule div_mod_eq_10)
  finally show ?case .
qed

lemma pad_less:
  assumes "n < 10 ^ k" "m < 10 ^ k"
  shows "pad k n < pad k m \<longleftrightarrow> n < m"
  using assms
proof (induction k arbitrary: n m)
  case 0
  then show ?case by simp
next
  case (Suc k)
  have d: "n div 10 < 10 ^ k" "m div 10 < 10 ^ k" using Suc.prems by auto
  have "pad (Suc k) n < pad (Suc k) m \<longleftrightarrow>
        pad k (n div 10) < pad k (m div 10) \<or>
        (pad k (n div 10) = pad k (m div 10) \<and> [digit_char n] < [digit_char m])"
    by (simp add: append_less_same_length)
  also have "\<dots> \<longleftrightarrow> n div 10 < m div 10 \<or> (n div 10 = m div 10 \<and> n mod 10 < m mod 10)"
    using Suc.IH [OF d] pad_eq [OF d] by (simp add: digit_char_less)
  also have "\<dots> \<longleftrightarrow> n < m" by (rule div_mod_less_10)
  finally show ?case .
qed

lemma snapshot_name_valid:
  assumes "valid_date d"
  shows "snapshot_name d =
           pad 4 (nat (year d)) @ CHR ''-'' # pad 2 (month d) @ CHR ''-'' # pad 2 (day d) @
           CHR ''T'' # pad 2 (hours d) @ CHR ''-'' # pad 2 (minutes d) @ CHR ''-'' #
           pad 2 (seconds d) @ CHR ''-'' # pad 3 (milliseconds d) @ ''Z''"
proof -
  have y: "0 \<le> year d \<and> year d \<le> 9999" using assms by (simp add: valid_date_def)
  have "toISOString d =
           pad 4 (nat (year d)) @ CHR ''-'' # pad 2 (month d) @ CHR ''-'' # pad 2 (day d) @
           CHR ''T'' # pad 2 (hours d) @ CHR '':'' # pad 2 (minutes d) @ CHR '':'' #
           pad 2 (seconds d) @ CHR ''.'' # pad 3 (milliseconds d) @ ''Z''"
    unfolding toISOString_def using y by simp
  then show ?thesis
    unfolding snapshot_name_def by simp
qed

lemma field_less:
  fixes f1 f2 :: string
  assumes "length f1 = length f2"
  shows "f1 @ c # r1 < f2 @ c # r2 \<longleftrightarrow> f1 < f2 \<or> (f1 = f2 \<and> r1 < r2)"
  using assms by (simp add: append_less_same_length)

lemma field_eq:
  fixes f1 f2 :: string
  assumes "length f1 = length f2"
  shows "f1 @ c # r1 = f2 @ c # r2 \<longleftrightarrow> f1 = f2 \<and> r1 = r2"
  using assms by simp

lemma valid_date_bounds:
  assumes "valid_date d"
  shows "nat (year d) < 10 ^ 4" "month d < 10 ^ 2" "day d < 10 ^ 2" "hours d < 10 ^ 2"
    "minutes d < 10 ^ 2" "seconds d < 10 ^ 2" "milliseconds d < 10 ^ 3" "0 \<le> year d"
  using assms by (auto simp: valid_date_def)

lemma snapshot_name_inj:
  assumes "valid_date d1" "valid_date d2"
  shows "snapshot_name d1 = snapshot_name d2 \<longleftrightarrow> d1 = d2"
proof -
  note b1 = valid_date_bounds [OF assms(1)] and b2 = valid_date_bounds [OF assms(2)]
  have "snapshot_name d1 = snapshot_name d2 \<longleftrightarrow>
          nat (year d1) = nat (year d2) \<and> month d1 = month d2 \<and> day d1 = day d2 \<and>
          hours d1 = hours d2 \<and> minutes d1 = minutes d2 \<and> seconds d1 = seconds d2 \<and>
          milliseconds d1 = milliseconds d2"
    unfolding snapshot_name_valid [OF assms(1)] snapshot_name_valid [OF assms(2)]
    by (simp add: field_eq pad_eq [OF b1(1) b2(1)] pad_eq [OF b1(2) b2(2)]
        pad_eq [OF b1(3) b2(3)] pad_eq [OF b1(4) b2(4)] pad_eq [OF b1(5) b2(5)]
        pad_eq [OF b1(6) b2(6)] pad_eq [OF b1(7) b2(7)])
  also have "\<dots> \<longleftrightarrow> d1 = d2"
    using b1(8) b2(8) by (cases d1, cases d2) auto
  finally show ?thesis .
qed

lemma snapshot_name_less:
  assumes "valid_date d1" "valid_date d2"
  shows "snapshot_name d1 < snapshot_name d2 \<longleftrightarrow> date_key d1 < date_key d2"
proof -
  note b1 = valid_date_bounds [OF assms(1)] and b2 = valid_date_bounds [OF assms(2)]
  note pe = pad_eq [OF b1(1) b2(1)] pad_eq [OF b1(2) b2(2)]
        pad_eq [OF b1(3) b2(3)] pad_eq [OF b1(4) b2(4)] pad_eq [OF b1(5) b2(5)]
        pad_eq [OF b1(6) b2(6)] pad_eq [OF b1(7) b2(7)]
  note pl = pad_less [OF b1(1) b2(1)] pad_less [OF b1(2) b2(2)]
        pad_less [OF b1(3) b2(3)] pad_less [OF b1(4) b2(4)] pad_less [OF b1(5) b2(5)]
        pad_less [OF b1(6) b2(6)] pad_less [OF b1(7) b2(7)]
  have "snapshot_name d1 < snapshot_name d2 \<longleftrightarrow>
          nat (year d1) < nat (year d2) \<or> (nat (year d1) = nat (year d2) \<and>
          (month d1 < month d2 \<or> (month d1 = month d2 \<and>
          (day d1 < day d2 \<or> (day d1 = day d2 \<and>
          (hours d1 < hours d2 \<or> (hours d1 = hours d2 \<and>
          (minutes d1 < minutes d2 \<or> (minutes d1 = minutes d2 \<and>
          (seconds d1 < seconds d2 \<or> (seconds d1 = seconds d2 \<and>
           milliseconds d1 < milliseconds d2)))))))))))"
    unfolding snapshot_name_valid [OF assms(1)] snapshot_name_valid [OF assms(2)]
    by (simp only: field_less length_pad pe pl not_less_Nil simp_thms)
  also have "\<dots> \<longleftrightarrow> date_key d1 < date_key d2"
    using b1(8) b2(8) unfolding date_key_def less_prod_simp by auto
  finally show ?thesis .
qed

text \<open>
  C9 (amended). On well-formed tables with at least one activity row, no transaction open
  and no storage fault: a \<open>createSnapshot\<close> whose name, derived from the instant read to
  the millisecond, is not yet the name of a snapshot creates a snapshot with an id that no
  snapshot has and with that name; a \<open>createSnapshot\<close> whose name is already taken, as for
  a second call at the same instant, fails on UNIQUE(name), is rolled back and returns
  null. For instants with a four-digit year, distinct instants have distinct names and the
  names are ordered as the instants are.
\<close>

theorem createSnapshot_fresh_name:
  assumes "faults c = []" "txn c = None" "wf_db (db c)" "channel_activity (db c) \<noteq> []"
  shows "(snapshot_name now \<notin> set (map snap_name (snapshots (db c))) \<longrightarrow>
            (\<exists>r c'. createSnapshot now ts c = (Some r, c') \<and>
               res_id r \<notin> snap_id ` set (snapshots (db c)) \<and>
               res_name r = snapshot_name now \<and>
               snapshots (db c') = snapshots (db c) @
                 [\<lparr>snap_id = res_id r, snap_name = snapshot_name now, created_at = ts\<rparr>] \<and>
               wf_db (db c') \<and>
               createSnapshot now ts' c' = (None, c'))) \<and>
         (snapshot_name now \<in> set (map snap_name (snapshots (db c))) \<longrightarrow>
            createSnapshot now ts c = (None, c)) \<and>
         (valid_date d1 \<and> valid_date d2 \<longrightarrow>
            (snapshot_name d1 = snapshot_name d2 \<longleftrightarrow> d1 = d2) \<and>
            (snapshot_name d1 < snapshot_name d2 \<longleftrightarrow> date_key d1 < date_key d2))"
proof (intro conjI impI)
  assume taken: "snapshot_name now \<in> set (map snap_name (snapshots (db c)))"
  with assms(1,2) show "createSnapshot now ts c = (None, c)"
    by (rule createSnapshot_name_taken)
next
  assume v: "valid_date d1 \<and> valid_date d2"
  then show "snapshot_name d1 = snapshot_name d2 \<longleftrightarrow> d1 = d2"
    by (simp add: snapshot_name_inj)
  from v show "snapshot_name d1 < snapshot_name d2 \<longleftrightarrow> date_key d1 < date_key d2"
    by (simp add: snapshot_name_less)
next
  assume fresh: "snapshot_name now \<notin> set (map snap_name (snapshots (db c)))"
  let ?i = "new_rowid (db c)"
  let ?r = "\<lparr>res_id = ?i, res_name = snapshot_name now,
              res_count = length (channel_activity (db c))\<rparr>"
  let ?c' = "c\<lparr>db := with_snapshot ?i (snapshot_name now) ts (db c)\<rparr>"
  have cr: "createSnapshot now ts c = (Some ?r, ?c')"
    using assms fresh by (rule createSnapshot_ok)
  have nw: "?i \<notin> snap_id ` set (snapshots (db c))"
    using new_rowid_fresh [of _ "db c"] by fastforce
  have wf: "wf_db (db ?c')" using wf_with_snapshot [OF assms(3) fresh, of ts] by simp
  have sn: "snapshots (db ?c') = snapshots (db c) @
              [\<lparr>snap_id = ?i, snap_name = snapshot_name now, created_at = ts\<rparr>]"
    by (simp add: with_snapshot_def)
  have "snapshot_name now \<in> set (map snap_name (snapshots (db ?c')))"
    unfolding sn by simp
  moreover have "faults ?c' = []" "txn ?c' = None" using assms(1,2) by simp_all
  ultimately have again: "createSnapshot now ts' ?c' = (None, ?c')"
    by (intro createSnapshot_name_taken)
  show "\<exists>r c'. createSnapshot now ts c = (Some r, c') \<and>
               res_id r \<notin> snap_id ` set (snapshots (db c)) \<and>
               res_name r = snapshot_name now \<and>
               snapshots (db c') = snapshots (db c) @
                 [\<lparr>snap_id = res_id r, snap_name = snapshot_name now, created_at = ts\<rparr>] \<and>
               wf_db (db c') \<and>
               createSnapshot now ts' c' = (None, c')"
  proof (intro exI conjI)
    show "createSnapshot now ts c = (Some ?r, ?c')" by (rule cr)
    show "res_id ?r \<notin> snap_id ` set (snapshots (db c))" using nw by simp
    show "res_name ?r = snapshot_name now" by simp
    show "snapshots (db ?c') = snapshots (db c) @
            [\<lparr>snap_id = res_id ?r, snap_name = snapshot_name now, created_at = ts\<rparr>]"
      using sn by simp
    show "wf_db (db ?c')" by (rule wf)
    show "createSnapshot now ts' ?c' = (None, ?c')" by (rule again)
  qed
qed

theorem createSnapshot_fresh_name_witness:
  "faults ex_busy = [] \<and> txn ex_busy = None \<and> wf_db (db ex_busy) \<and>
   channel_activity (db ex_busy) \<noteq> [] \<and>
   snapshot_name ex_date \<notin> set (map snap_name (snapshots (db ex_busy))) \<and>
   (\<exists>r c'. createSnapshot ex_date 60 ex_busy = (Some r, c') \<and>
      res_id r \<notin> snap_id ` set (snapshots (db ex_busy)) \<and>
      createSnapshot ex_date 61 c' = (None, c')) \<and>
   map_option res_id (fst (createSnapshot ex_date 60 ex_busy)) = Some 2 \<and>
   valid_date ex_date \<and> valid_date ex_date_later \<and>
   snapshot_name ex_date = ''2024-05-17T09-03-41-007Z'' \<and>
   snapshot_name ex_date_later = ''2024-05-17T09-03-42-000Z'' \<and>
   snapshot_name ex_date < snapshot_name ex_date_later"
proof -
  have h1: "faults ex_busy = []" by code_simp
  have h2: "txn ex_busy = None" by code_simp
  have h3: "wf_db (db ex_busy)" by code_simp
  have h4: "channel_activity (db ex_busy) \<noteq> []" by code_simp
  have h5: "snapshot_name ex_date \<notin> set (map snap_name (snapshots (db ex_busy)))" by code_simp
  have v: "valid_date ex_date" "valid_date ex_date_later" by code_simp+
  have k: "date_key ex_date < date_key ex_date_later" by code_simp
  have n: "snapshot_name ex_date = ''2024-05-17T09-03-41-007Z''"
    "snapshot_name ex_date_later = ''2024-05-17T09-03-42-000Z''"
    by code_simp+
  have i: "map_option res_id (fst (createSnapshot ex_date 60 ex_busy)) = Some 2" by code_simp
  note inst = createSnapshot_fresh_name [OF h1 h2 h3 h4, of ex_date 60 61 ex_date ex_date_later]
  from inst h5 have ex: "\<exists>r c'. createSnapshot ex_date 60 ex_busy = (Some r, c') \<and>
      res_id r \<notin> snap_id ` set (snapshots (db ex_busy)) \<and>
      createSnapshot ex_date 61 c' = (None, c')"
    by blast
  from inst v k have lt: "snapshot_name ex_date < snapshot_name ex_date_later" by blast
  from h1 h2 h3 h4 h5 ex i v n lt show ?thesis by blast
qed

text \<open>
  C9 as stated fails: two calls of \<open>createSnapshot\<close> at the same instant on a non-empty
  store do not each create a snapshot; the second returns null and the snapshots stay at
  ids 1 and 2.
\<close>

theorem create_same_instant_counterexample:
  "channel_activity (db ex_busy) \<noteq> [] \<and>
   map_option res_id (fst (createSnapshot ex_date 60 ex_busy)) = Some 2 \<and>
   fst (createSnapshot ex_date 60 (snd (createSnapshot ex_date 60 ex_busy))) = None \<and>
   map snap_id (snapshots (db (snd (createSnapshot ex_date 60
                                      (snd (createSnapshot ex_date 60 ex_busy)))))) = [1, 2]"
  by code_simp

section \<open>A snapshot read back\<close>




















section \<open>The event loop of the scheduler\<close>

lemma snapshot_then_cleanup_eq:
  "snapshot_then_cleanup now ts c =
     ([CreateSnapshotCall, CleanupCall None],
      cleanupOldSnapshots None (snd (createSnapshot now ts c)))"
  by (simp add: snapshot_then_cleanup_def split: prod.splits)

lemma run_body_eq:
  "run_body t now ts l =
     l\<lparr>conn_of := cleanupOldSnapshots None (snd (createSnapshot now ts (conn_of l))),
       trace := trace l @ [(t, CreateSnapshotCall), (t, CleanupCall None)]\<rparr>"
  by (simp add: run_body_def snapshot_then_cleanup_eq)

lemma fire_timeout:
  assumes "timers l = [\<lparr>due = d, every = None, callback = StartRecurring\<rparr>]"
  shows "conn_of (fire now ts l) =
           cleanupOldSnapshots None (snd (createSnapshot now ts (conn_of l)))"
    and "trace (fire now ts l) = trace l @ [(d, CreateSnapshotCall), (d, CleanupCall None)]"
    and "timers (fire now ts l) =
           [\<lparr>due = d + SNAPSHOT_INTERVAL, every = Some SNAPSHOT_INTERVAL,
             callback = SnapshotBody\<rparr>]"
  using assms by (simp_all add: fire_def run_body_eq)

lemma fire_interval:
  assumes "timers l = [\<lparr>due = d, every = Some p, callback = SnapshotBody\<rparr>]"
  shows "conn_of (fire now ts l) =
           cleanupOldSnapshots None (snd (createSnapshot now ts (conn_of l)))"
    and "trace (fire now ts l) = trace l @ [(d, CreateSnapshotCall), (d, CleanupCall None)]"
    and "timers (fire now ts l) = [\<lparr>due = d + p, every = Some p, callback = SnapshotBody\<rparr>]"
  using assms by (simp_all add: fire_def run_body_eq)

lemma run_events_snoc:
  "run_events (clocks @ [(now, ts)]) l = fire now ts (run_events clocks l)"
  by (induction clocks l rule: run_events.induct) simp_all

lemma run_events_recurring:
  assumes "timers l0 = [\<lparr>due = d, every = None, callback = StartRecurring\<rparr>]"
  shows "trace (run_events clocks l0) =
           trace l0 @
           concat (map (\<lambda>k. [(d + int k * SNAPSHOT_INTERVAL, CreateSnapshotCall),
                              (d + int k * SNAPSHOT_INTERVAL, CleanupCall None)])
                     [0..<length clocks]) \<and>
         conn_of (run_events clocks l0) =
           foldl (\<lambda>c (now, ts). cleanupOldSnapshots None (snd (createSnapshot now ts c)))
             (conn_of l0) clocks \<and>
         timers (run_events clocks l0) =
           (if clocks = [] then [\<lparr>due = d, every = None, callback = StartRecurring\<rparr>]
            else [\<lparr>due = d + int (length clocks) * SNAPSHOT_INTERVAL,
                   every = Some SNAPSHOT_INTERVAL, callback = SnapshotBody\<rparr>])"
proof (induction clocks rule: rev_induct)
  case Nil
  show ?case using assms by simp
next
  case (snoc p clocks)
  obtain now ts where p: "p = (now, ts)" by (cases p)
  let ?l = "run_events clocks l0"
  show ?case
  proof (cases "clocks = []")
    case True
    then have t: "timers ?l = [\<lparr>due = d, every = None, callback = StartRecurring\<rparr>]"
      using assms by simp
    from fire_timeout [OF t, of now ts] True show ?thesis
      unfolding p run_events_snoc by simp
  next
    case False
    with snoc.IH have t: "timers ?l =
        [\<lparr>due = d + int (length clocks) * SNAPSHOT_INTERVAL,
          every = Some SNAPSHOT_INTERVAL, callback = SnapshotBody\<rparr>]"
      by simp
    from fire_interval [OF t, of now ts] snoc.IH show ?thesis
      unfolding p run_events_snoc by (simp add: algebra_simps)
  qed
qed

lemma scheduler_start_none:
  assumes "fst (getLastSnapshotTime c) = None"
  shows "scheduler_start date_now now ts c =
           \<lparr>conn_of = cleanupOldSnapshots None
                        (snd (createSnapshot now ts (snd (getLastSnapshotTime c)))),
            timers = [\<lparr>due = 0, every = None, callback = StartRecurring\<rparr>],
            trace = [(0, CreateSnapshotCall), (0, CleanupCall None)]\<rparr>"
proof -
  from assms have g: "getLastSnapshotTime c = (None, snd (getLastSnapshotTime c))"
    by (metis prod.collapse)
  show ?thesis
    unfolding scheduler_start_def setupAutomaticSnapshots_def
    by (subst g, subst g) (simp add: snapshot_then_cleanup_eq)
qed

lemma scheduler_start_some:
  assumes "getLastSnapshotTime c = (Some t, c1)"
  shows "conn_of (scheduler_start date_now now ts c) = c1"
    and "trace (scheduler_start date_now now ts c) = []"
    and "\<exists>d. timers (scheduler_start date_now now ts c) =
               [\<lparr>due = d, every = None, callback = StartRecurring\<rparr>]"
  using assms
  by (simp_all add: scheduler_start_def setupAutomaticSnapshots_def Let_def)

lemma getLastSnapshotTime_fault_free:
  assumes "faults c = []"
  shows "getLastSnapshotTime c =
           (if snapshots (db c) = [] then None
            else Some (int (Max (created_at ` set (snapshots (db c)))) * 1000), c)"
proof (cases "snapshots (db c) = []")
  case True
  with assms show ?thesis
    by (simp add: getLastSnapshotTime_def select_last_created_at_def next_fault_none)
next
  case False
  obtain r c1 where s: "select_last_created_at c = (r, c1)"
    by (cases "select_last_created_at c")
  with assms have c1: "c1 = c" and "\<exists>x. r = Ok x"
    by (auto simp: select_last_created_at_def next_fault_none)
  then obtain x where r: "r = Ok x" by blast
  from select_last_created_at_Ok [OF s [unfolded r] False]
  have "x = Some (Max (created_at ` set (snapshots (db c))))" by simp
  with s r c1 False show ?thesis by (simp add: getLastSnapshotTime_def)
qed

text \<open>
  C8. At startup without any snapshot, \<open>setupAutomaticSnapshots\<close> makes exactly the calls
  \<open>createSnapshot\<close> then \<open>cleanupOldSnapshots\<close> before it sets the timer, the second on the
  state the first returned, and sets the timer with delay 0. The timer phase then runs the
  snapshot body at 0, 4 h, 8 h, ... after the start: the timeout callback arms the interval
  timer and runs the body itself at once, so the body runs a second time at time 0. Each
  run of the body is \<open>createSnapshot\<close> followed by \<open>cleanupOldSnapshots\<close> on the state it
  returned, and the state of each firing is the one the previous firing left. This holds
  with any storage faults to come.
\<close>

theorem scheduler_first_run:
  assumes "snapshots (db c) = []"
  shows "trace (scheduler_start date_now now0 ts0 c) =
           [(0, CreateSnapshotCall), (0, CleanupCall None)] \<and>
         conn_of (scheduler_start date_now now0 ts0 c) =
           cleanupOldSnapshots None
             (snd (createSnapshot now0 ts0 (snd (getLastSnapshotTime c)))) \<and>
         timers (scheduler_start date_now now0 ts0 c) =
           [\<lparr>due = 0, every = None, callback = StartRecurring\<rparr>] \<and>
         trace (run_events clocks (scheduler_start date_now now0 ts0 c)) =
           [(0, CreateSnapshotCall), (0, CleanupCall None)] @
           concat (map (\<lambda>k. [(int k * 14400000, CreateSnapshotCall),
                              (int k * 14400000, CleanupCall None)])
                     [0..<length clocks]) \<and>
         conn_of (run_events clocks (scheduler_start date_now now0 ts0 c)) =
           foldl (\<lambda>c (now, ts). cleanupOldSnapshots None (snd (createSnapshot now ts c)))
             (conn_of (scheduler_start date_now now0 ts0 c)) clocks \<and>
         timers (run_events clocks (scheduler_start date_now now0 ts0 c)) =
           (if clocks = [] then [\<lparr>due = 0, every = None, callback = StartRecurring\<rparr>]
            else [\<lparr>due = int (length clocks) * 14400000, every = Some 14400000,
                   callback = SnapshotBody\<rparr>])"
proof -
  let ?start = "scheduler_start date_now now0 ts0 c"
  have "fst (getLastSnapshotTime c) = None" using assms by (rule getLastSnapshotTime_none)
  then have s: "?start =
      \<lparr>conn_of = cleanupOldSnapshots None
                   (snd (createSnapshot now0 ts0 (snd (getLastSnapshotTime c)))),
       timers = [\<lparr>due = 0, every = None, callback = StartRecurring\<rparr>],
       trace = [(0, CreateSnapshotCall), (0, CleanupCall None)]\<rparr>"
    by (rule scheduler_start_none)
  have t: "timers ?start = [\<lparr>due = 0, every = None, callback = StartRecurring\<rparr>]"
    and tr: "trace ?start = [(0, CreateSnapshotCall), (0, CleanupCall None)]"
    and co: "conn_of ?start = cleanupOldSnapshots None
                   (snd (createSnapshot now0 ts0 (snd (getLastSnapshotTime c))))"
    unfolding s by simp_all
  from run_events_recurring [OF t, of clocks] tr
  have r: "trace (run_events clocks ?start) =
           [(0, CreateSnapshotCall), (0, CleanupCall None)] @
           concat (map (\<lambda>k. [(int k * 14400000, CreateSnapshotCall),
                              (int k * 14400000, CleanupCall None)])
                     [0..<length clocks])"
    "conn_of (run_events clocks ?start) =
           foldl (\<lambda>c (now, ts). cleanupOldSnapshots None (snd (createSnapshot now ts c)))
             (conn_of ?start) clocks"
    "timers (run_events clocks ?start) =
           (if clocks = [] then [\<lparr>due = 0, every = None, callback = StartRecurring\<rparr>]
            else [\<lparr>due = int (length clocks) * 14400000, every = Some 14400000,
                   callback = SnapshotBody\<rparr>])"
    by (simp_all add: SNAPSHOT_INTERVAL_def)
  from t tr co r show ?thesis by blast
qed

theorem scheduler_first_run_witness:
  "snapshots (db ex_fresh) = [] \<and>
   trace (run_events [(ex_date_later, 21), (ex_date_third, 14421)]
            (scheduler_start 0 ex_date 20 ex_fresh)) =
     [(0, CreateSnapshotCall), (0, CleanupCall None),
      (0, CreateSnapshotCall), (0, CleanupCall None),
      (14400000, CreateSnapshotCall), (14400000, CleanupCall None)] \<and>
   timers (run_events [(ex_date_later, 21), (ex_date_third, 14421)]
             (scheduler_start 0 ex_date 20 ex_fresh)) =
     [\<lparr>due = 28800000, every = Some 14400000, callback = SnapshotBody\<rparr>] \<and>
   map snap_id (snapshots (db (conn_of (scheduler_start 0 ex_date 20 ex_fresh)))) = [1] \<and>
   map snap_id (snapshots (db (conn_of
     (run_events [(ex_date_later, 21), (ex_date_third, 14421)]
        (scheduler_start 0 ex_date 20 ex_fresh))))) = [1, 2, 3]"
proof -
  have h: "snapshots (db ex_fresh) = []" by (simp add: ex_fresh_def)
  note inst = scheduler_first_run [OF h, of 0 ex_date 20
      "[(ex_date_later, 21), (ex_date_third, 14421)]"]
  have u: "[0..<length [(ex_date_later, 21::nat), (ex_date_third, 14421)]] = [0, 1]"
    by (simp add: upt_rec)
  from inst have tr: "trace (run_events [(ex_date_later, 21), (ex_date_third, 14421)]
            (scheduler_start 0 ex_date 20 ex_fresh)) =
     [(0, CreateSnapshotCall), (0, CleanupCall None),
      (0, CreateSnapshotCall), (0, CleanupCall None),
      (14400000, CreateSnapshotCall), (14400000, CleanupCall None)]"
    unfolding u by simp
  from inst have tm: "timers (run_events [(ex_date_later, 21), (ex_date_third, 14421)]
             (scheduler_start 0 ex_date 20 ex_fresh)) =
     [\<lparr>due = 28800000, every = Some 14400000, callback = SnapshotBody\<rparr>]"
    by simp
  have e1: "map snap_id (snapshots (db (conn_of (scheduler_start 0 ex_date 20 ex_fresh)))) = [1]"
    by code_simp
  have e2: "map snap_id (snapshots (db (conn_of
     (run_events [(ex_date_later, 21), (ex_date_third, 14421)]
        (scheduler_start 0 ex_date 20 ex_fresh))))) = [1, 2, 3]"
    by code_simp
  from h tr tm e1 e2 show ?thesis by blast
qed

text \<open>
  C8 as stated fails in that the immediate snapshot is not the only one before the first
  interval has passed: on a store with activity and no snapshot, the body of the timeout
  callback, due at delay 0, takes a second snapshot right after the first run, and the
  store holds the ids 1 and 2 while the next firing is due after four hours.
\<close>

theorem scheduler_second_immediate_snapshot_counterexample:
  "snapshots (db ex_fresh) = [] \<and>
   trace (run_events [(ex_date_later, 21)] (scheduler_start 0 ex_date 20 ex_fresh)) =
     [(0, CreateSnapshotCall), (0, CleanupCall None),
      (0, CreateSnapshotCall), (0, CleanupCall None)] \<and>
   map snap_id (snapshots (db (conn_of
     (run_events [(ex_date_later, 21)] (scheduler_start 0 ex_date 20 ex_fresh))))) = [1, 2] \<and>
   map due (timers (run_events [(ex_date_later, 21)] (scheduler_start 0 ex_date 20 ex_fresh))) =
     [14400000]"
  by code_simp

section \<open>The retention bound of the scheduler\<close>

lemma createSnapshot_fault_free:
  assumes "faults c = []" "txn c = None" "wf_db (db c)"
  shows "wf_db (db (snd (createSnapshot now ts c))) \<and>
         txn (snd (createSnapshot now ts c)) = None \<and>
         faults (snd (createSnapshot now ts c)) = []"
proof (cases "channel_activity (db c) = []")
  case True
  with assms show ?thesis by (simp add: createSnapshot_no_activity)
next
  case False
  note ne = this
  show ?thesis
  proof (cases "snapshot_name now \<in> set (map snap_name (snapshots (db c)))")
    case True
    with assms show ?thesis by (simp add: createSnapshot_name_taken)
  next
    case False
    from createSnapshot_ok [OF assms ne False, of ts] wf_with_snapshot [OF assms(3) False, of ts]
    show ?thesis using assms by simp
  qed
qed

lemma cleanup_length:
  assumes "wf_db (db c)" "txn c = None" "faults c = []" "0 \<le> k"
  shows "length (snapshots (db (cleanupOldSnapshots (Some k) c))) =
           min (nat k) (length (snapshots (db c)))"
proof (cases "int (length (snapshots (db c))) \<le> k")
  case True
  with assms(3) have "cleanupOldSnapshots (Some k) c = c" by (rule cleanup_noop)
  with True show ?thesis by simp
next
  case False
  then have big: "k < int (length (snapshots (db c)))" by simp
  have di: "distinct (map snap_id (snapshots (db c)))" using assms(1) by (simp add: wf_db_def)
  have le: "nat k \<le> length (snapshots (db c))" using big assms(4) by simp
  from cleanup_effect [OF assms(3,2,4) big] newest_kept(2) [OF di le]
  have "length (snapshots (db (cleanupOldSnapshots (Some k) c))) = nat k"
    by (simp add: without_def)
  with le show ?thesis by simp
qed

lemma wf_without:
  assumes "wf_db d"
  shows "wf_db (without ids d)"
proof -
  have "snapshot_id r \<in> snap_id ` {s \<in> set (snapshots d). snap_id s \<notin> set ids}"
    if "r \<in> set (snapshot_data d)" "snapshot_id r \<notin> set ids" for r
  proof -
    from assms that(1) obtain s where "s \<in> set (snapshots d)" "snap_id s = snapshot_id r"
      by (auto simp: wf_db_def list_all_iff)
    with that(2) show ?thesis by force
  qed
  then have a: "list_all (\<lambda>r. snapshot_id r \<in> set (map snap_id (snapshots (without ids d))))
                  (snapshot_data (without ids d))"
    by (simp add: without_def list_all_iff)
  from assms have
    "distinct (map activity_key (channel_activity (without ids d)))"
    "distinct (map snap_id (snapshots (without ids d)))"
    "list_all (\<lambda>s. 0 < snap_id s) (snapshots (without ids d))"
    "distinct (map snap_name (snapshots (without ids d)))"
    "distinct (map sd_key (snapshot_data (without ids d)))"
    "case sqlite_sequence (without ids d) of
        None \<Rightarrow> snapshots (without ids d) = []
      | Some q \<Rightarrow> list_all (\<lambda>s. snap_id s \<le> q) (snapshots (without ids d))"
    by (auto simp: wf_db_def without_def distinct_map_filter list_all_iff split: option.splits)
  with a show ?thesis unfolding wf_db_def by blast
qed

lemma cleanup_fault_free:
  assumes "faults c = []" "txn c = None" "wf_db (db c)" "0 \<le> k"
  shows "wf_db (db (cleanupOldSnapshots (Some k) c)) \<and>
         txn (cleanupOldSnapshots (Some k) c) = None \<and>
         faults (cleanupOldSnapshots (Some k) c) = []"
proof (cases "int (length (snapshots (db c))) \<le> k")
  case True
  with assms(1) have "cleanupOldSnapshots (Some k) c = c" by (rule cleanup_noop)
  with assms show ?thesis by simp
next
  case False
  then have big: "k < int (length (snapshots (db c)))" by simp
  from cleanup_effect [OF assms(1,2,4) big] wf_without [OF assms(3)]
  show ?thesis by simp
qed

lemma cleanup_default:
  "cleanupOldSnapshots None c = cleanupOldSnapshots (Some 100) c"
  by (simp add: cleanupOldSnapshots_def)

lemma body_fault_free:
  assumes "faults c = []" "txn c = None" "wf_db (db c)"
  shows "faults (cleanupOldSnapshots None (snd (createSnapshot now ts c))) = [] \<and>
         txn (cleanupOldSnapshots None (snd (createSnapshot now ts c))) = None \<and>
         wf_db (db (cleanupOldSnapshots None (snd (createSnapshot now ts c))))"
proof -
  let ?c1 = "snd (createSnapshot now ts c)"
  from createSnapshot_fault_free [OF assms, of now ts]
  have "faults ?c1 = []" "txn ?c1 = None" "wf_db (db ?c1)" by simp_all
  from cleanup_fault_free [OF this, of 100] show ?thesis
    unfolding cleanup_default by simp
qed

lemma bodies_fault_free:
  assumes "faults c = []" "txn c = None" "wf_db (db c)"
  shows "faults (foldl (\<lambda>c (now, ts). cleanupOldSnapshots None (snd (createSnapshot now ts c)))
                   c clocks) = [] \<and>
         txn (foldl (\<lambda>c (now, ts). cleanupOldSnapshots None (snd (createSnapshot now ts c)))
                c clocks) = None \<and>
         wf_db (db (foldl (\<lambda>c (now, ts). cleanupOldSnapshots None (snd (createSnapshot now ts c)))
                      c clocks))"
  using assms
proof (induction clocks arbitrary: c)
  case Nil
  then show ?case by simp
next
  case (Cons p clocks)
  obtain now ts where p: "p = (now, ts)" by (cases p)
  from body_fault_free [OF Cons.prems, of now ts]
  have "faults (cleanupOldSnapshots None (snd (createSnapshot now ts c))) = []"
    "txn (cleanupOldSnapshots None (snd (createSnapshot now ts c))) = None"
    "wf_db (db (cleanupOldSnapshots None (snd (createSnapshot now ts c))))"
    by simp_all
  from Cons.IH [OF this] show ?case unfolding p by simp
qed

lemma scheduler_start_fault_free:
  assumes "faults c = []"
  shows "conn_of (scheduler_start date_now now ts c) =
           (if snapshots (db c) = [] then cleanupOldSnapshots None (snd (createSnapshot now ts c))
            else c)"
    and "trace (scheduler_start date_now now ts c) =
           (if snapshots (db c) = [] then [(0, CreateSnapshotCall), (0, CleanupCall None)]
            else [])"
    and "\<exists>d. timers (scheduler_start date_now now ts c) =
               [\<lparr>due = d, every = None, callback = StartRecurring\<rparr>]"
proof -
  note g = getLastSnapshotTime_fault_free [OF assms]
  show "conn_of (scheduler_start date_now now ts c) =
           (if snapshots (db c) = [] then cleanupOldSnapshots None (snd (createSnapshot now ts c))
            else c)"
  proof (cases "snapshots (db c) = []")
    case True
    with g have "fst (getLastSnapshotTime c) = None" "snd (getLastSnapshotTime c) = c"
      by simp_all
    with True show ?thesis by (simp add: scheduler_start_none)
  next
    case False
    with g show ?thesis by (simp add: scheduler_start_some(1))
  qed
  show "trace (scheduler_start date_now now ts c) =
           (if snapshots (db c) = [] then [(0, CreateSnapshotCall), (0, CleanupCall None)]
            else [])"
  proof (cases "snapshots (db c) = []")
    case True
    with g have "fst (getLastSnapshotTime c) = None" by simp
    with True show ?thesis by (simp add: scheduler_start_none)
  next
    case False
    with g show ?thesis by (simp add: scheduler_start_some(2))
  qed
  show "\<exists>d. timers (scheduler_start date_now now ts c) =
               [\<lparr>due = d, every = None, callback = StartRecurring\<rparr>]"
  proof (cases "snapshots (db c) = []")
    case True
    with g have "fst (getLastSnapshotTime c) = None" by simp
    then show ?thesis by (simp add: scheduler_start_none)
  next
    case False
    with g have "getLastSnapshotTime c =
        (Some (int (Max (created_at ` set (snapshots (db c)))) * 1000), c)" by simp
    then show ?thesis by (rule scheduler_start_some(3))
  qed
qed

lemma concat_replicate_snoc:
  "concat (replicate n xs) @ xs = xs @ concat (replicate n xs)"
  by (induction n) simp_all

lemma calls_of_firings:
  "map snd (concat (map (\<lambda>k. [(f k, CreateSnapshotCall), (f k, CleanupCall None)]) [0..<n])) =
   concat (replicate n [CreateSnapshotCall, CleanupCall None])"
proof (induction n)
  case 0
  show ?case by simp
next
  case (Suc n)
  from Suc concat_replicate_snoc [of n "[CreateSnapshotCall, CleanupCall None]"]
  show ?case by simp
qed

lemma ex_hundred_tables:
  "wf_db (db ex_hundred)" "txn ex_hundred = None" "faults ex_hundred = []"
  "length (snapshots (db ex_hundred)) = 100"
  "channel_activity (db ex_hundred) \<noteq> []"
  "snapshot_name ex_date \<notin> set (map snap_name (snapshots (db ex_hundred)))"
proof -
  have inj: "inj_on (pad 3) (set [1..<101])"
    by (rule inj_onI) (simp add: pad_eq)
  have "distinct (map (pad 3) [1..<101])"
    using inj by (simp add: distinct_map)
  then show "wf_db (db ex_hundred)"
    by (simp add: wf_db_def ex_hundred_def comp_def list_all_iff)
  show "txn ex_hundred = None" "faults ex_hundred = []"
    "length (snapshots (db ex_hundred)) = 100" "channel_activity (db ex_hundred) \<noteq> []"
    by (simp_all add: ex_hundred_def)
  have "length (snapshot_name ex_date) = 24" by code_simp
  then have "snapshot_name ex_date \<noteq> pad 3 i" for i
    by (metis length_pad numeral_eq_iff semiring_norm(89))
  then show "snapshot_name ex_date \<notin> set (map snap_name (snapshots (db ex_hundred)))"
    by (auto simp: ex_hundred_def)
qed

text \<open>
  C10. \<open>cleanupOldSnapshots\<close> without a keep count is \<open>cleanupOldSnapshots\<close> with 100, and
  every call the scheduler makes is \<open>createSnapshot\<close> or \<open>cleanupOldSnapshots\<close> without a
  keep count: in the first run, when there is no snapshot, and in every firing of the
  timer phase. On well-formed tables and without storage fault, the first run leaves the
  state of \<open>cleanupOldSnapshots\<close> with 100 after the snapshot, and after any number of
  firings the next firing leaves the state of \<open>cleanupOldSnapshots\<close> with 100 applied to
  what \<open>createSnapshot\<close> returned, which holds the smaller of 100 and the number of
  snapshots present after the snapshot was taken.
\<close>

theorem scheduled_retention_default:
  assumes "wf_db (db c)" "txn c = None" "faults c = []"
  shows "cleanupOldSnapshots None c = cleanupOldSnapshots (Some 100) c \<and>
         conn_of (scheduler_start date_now now0 ts0 c) =
           (if snapshots (db c) = [] then
              cleanupOldSnapshots (Some 100) (snd (createSnapshot now0 ts0 c))
            else c) \<and>
         map snd (trace (run_events clocks (scheduler_start date_now now0 ts0 c))) =
           concat (replicate ((if snapshots (db c) = [] then 1 else 0) + length clocks)
                     [CreateSnapshotCall, CleanupCall None]) \<and>
         run_events (clocks @ [(now, ts)]) (scheduler_start date_now now0 ts0 c) =
           fire now ts (run_events clocks (scheduler_start date_now now0 ts0 c)) \<and>
         conn_of (fire now ts (run_events clocks (scheduler_start date_now now0 ts0 c))) =
           cleanupOldSnapshots (Some 100)
             (snd (createSnapshot now ts
                (conn_of (run_events clocks (scheduler_start date_now now0 ts0 c))))) \<and>
         length (snapshots (db (conn_of
            (fire now ts (run_events clocks (scheduler_start date_now now0 ts0 c)))))) =
           min 100 (length (snapshots (db (snd (createSnapshot now ts
              (conn_of (run_events clocks (scheduler_start date_now now0 ts0 c))))))))"
proof -
  let ?start = "scheduler_start date_now now0 ts0 c"
  let ?run = "run_events clocks ?start"
  let ?body = "\<lambda>c (now, ts). cleanupOldSnapshots None (snd (createSnapshot now ts c))"
  note st = scheduler_start_fault_free [OF assms(3), of date_now now0 ts0]
  from st(3) obtain d where t: "timers ?start = [\<lparr>due = d, every = None, callback = StartRecurring\<rparr>]"
    by blast
  note run = run_events_recurring [OF t, of clocks]
  have a: "cleanupOldSnapshots None c = cleanupOldSnapshots (Some 100) c"
    by (rule cleanup_default)
  have b: "conn_of ?start =
           (if snapshots (db c) = [] then
              cleanupOldSnapshots (Some 100) (snd (createSnapshot now0 ts0 c))
            else c)"
    using st(1) by (simp add: cleanup_default)
  have "map snd (trace ?run) =
          map snd (trace ?start) @ concat (replicate (length clocks) [CreateSnapshotCall, CleanupCall None])"
    using run by (simp add: calls_of_firings)
  then have cc: "map snd (trace ?run) =
           concat (replicate ((if snapshots (db c) = [] then 1 else 0) + length clocks)
                     [CreateSnapshotCall, CleanupCall None])"
    using st(2) by simp
  have sn: "run_events (clocks @ [(now, ts)]) ?start = fire now ts ?run"
    by (rule run_events_snoc)
  have inv0: "faults (conn_of ?start) = [] \<and> txn (conn_of ?start) = None \<and> wf_db (db (conn_of ?start))"
  proof (cases "snapshots (db c) = []")
    case True
    with st(1) body_fault_free [OF assms(3,2,1), of now0 ts0] show ?thesis by simp
  next
    case False
    with st(1) assms show ?thesis by simp
  qed
  then have "faults (foldl ?body (conn_of ?start) clocks) = [] \<and>
             txn (foldl ?body (conn_of ?start) clocks) = None \<and>
             wf_db (db (foldl ?body (conn_of ?start) clocks))"
    by (intro bodies_fault_free) simp_all
  then have inv: "faults (conn_of ?run) = []" "txn (conn_of ?run) = None" "wf_db (db (conn_of ?run))"
    using run by simp_all
  have "conn_of (run_events (clocks @ [(now, ts)]) ?start) =
          foldl ?body (conn_of ?start) (clocks @ [(now, ts)])"
    using run_events_recurring [OF t, of "clocks @ [(now, ts)]"] by blast
  also have "\<dots> = cleanupOldSnapshots None (snd (createSnapshot now ts (conn_of ?run)))"
    using run by simp
  finally have e: "conn_of (fire now ts ?run) =
      cleanupOldSnapshots (Some 100) (snd (createSnapshot now ts (conn_of ?run)))"
    unfolding sn cleanup_default .
  let ?c1 = "snd (createSnapshot now ts (conn_of ?run))"
  from createSnapshot_fault_free [OF inv, of now ts]
  have "wf_db (db ?c1)" "txn ?c1 = None" "faults ?c1 = []" by simp_all
  then have "length (snapshots (db (cleanupOldSnapshots (Some 100) ?c1))) =
             min (nat 100) (length (snapshots (db ?c1)))"
    by (intro cleanup_length) simp_all
  then have f: "length (snapshots (db (conn_of (fire now ts ?run)))) =
                min 100 (length (snapshots (db ?c1)))"
    unfolding e by simp
  from a b cc sn e f show ?thesis by blast
qed

theorem scheduled_retention_default_witness:
  "wf_db (db ex_hundred) \<and> txn ex_hundred = None \<and> faults ex_hundred = [] \<and>
   length (snapshots (db ex_hundred)) = 100 \<and>
   length (snapshots (db (snd (createSnapshot ex_date 2000 ex_hundred)))) = 101 \<and>
   map snd (trace (run_events [(ex_date, 2000)] (scheduler_start 20000000 ex_date 2000 ex_hundred))) =
     [CreateSnapshotCall, CleanupCall None] \<and>
   length (snapshots (db (conn_of
     (run_events [(ex_date, 2000)] (scheduler_start 20000000 ex_date 2000 ex_hundred))))) = 100"
proof -
  note h = ex_hundred_tables
  from h(4) have ne: "snapshots (db ex_hundred) \<noteq> []" by auto
  from createSnapshot_ok [OF h(3,2,1,5,6), of 2000]
  have k: "length (snapshots (db (snd (createSnapshot ex_date 2000 ex_hundred)))) = 101"
    using h(4) by (simp add: with_snapshot_def)
  note inst = scheduled_retention_default [OF h(1,2,3), of 20000000 ex_date 2000 "[]" ex_date 2000]
  from inst ne have c0: "conn_of (scheduler_start 20000000 ex_date 2000 ex_hundred) = ex_hundred"
    by simp
  from inst have sn: "run_events [(ex_date, 2000)] (scheduler_start 20000000 ex_date 2000 ex_hundred) =
      fire ex_date 2000 (scheduler_start 20000000 ex_date 2000 ex_hundred)"
    by simp
  from inst have "length (snapshots (db (conn_of
        (fire ex_date 2000 (run_events [] (scheduler_start 20000000 ex_date 2000 ex_hundred)))))) =
      min 100 (length (snapshots (db (snd (createSnapshot ex_date 2000
        (conn_of (run_events [] (scheduler_start 20000000 ex_date 2000 ex_hundred))))))))"
    by blast
  then have "length (snapshots (db (conn_of
        (fire ex_date 2000 (scheduler_start 20000000 ex_date 2000 ex_hundred))))) =
      min 100 (length (snapshots (db (snd (createSnapshot ex_date 2000
        (conn_of (scheduler_start 20000000 ex_date 2000 ex_hundred)))))))"
    by (simp only: run_events.simps)
  then have len: "length (snapshots (db (conn_of
     (run_events [(ex_date, 2000)] (scheduler_start 20000000 ex_date 2000 ex_hundred))))) = 100"
    unfolding sn c0 k by simp
  from scheduled_retention_default [OF h(1,2,3), of 20000000 ex_date 2000 "[(ex_date, 2000)]"
      ex_date 2000] ne
  have tr: "map snd (trace (run_events [(ex_date, 2000)]
              (scheduler_start 20000000 ex_date 2000 ex_hundred))) =
     [CreateSnapshotCall, CleanupCall None]"
    by simp
  from h(1,2,3,4) k tr len show ?thesis by blast
qed

end
